theory Spec2Isabelle
  imports Main "HOL-Library.Word"
begin

unbundle bit_operations_syntax

section \<open>Machine types\<close>

type_synonym u8 = "8 word"
type_synonym u16 = "16 word"
type_synonym u32 = "32 word"
type_synonym u64 = "64 word"

text \<open>A \<open>double\<close> is carried as its 64-bit pattern: the codec only ever looks at the bits
  (the \<open>union { double real; uint64_t bits; }\<close> of the source), and the containers copy them.\<close>

type_synonym double = u64

text \<open>Abnormal ends of a call: \<open>AKU_PANIC\<close>, a failed \<open>assert\<close>, a write through a null
  handle, a read past the end of the input, \<open>vector::at\<close> out of range.\<close>

datatype fault = Panic string | AssertFailed | NullDeref | StreamOutOfBounds | OutOfRange

section \<open>Chunk utilities (reorder\_chunk\_header and its two callers)\<close>

record UncompressedChunk =
  paramids :: "u64 list"
  timestamps :: "u64 list"
  values_col :: "double list"

text \<open>\<open>std::stable_sort(first, last, cmp)\<close>: the stable insertion sort. For a comparator that
  is a strict weak order the C++ standard fixes the result (sorted, equal elements in their
  input order), so every conforming implementation returns this list.\<close>

fun stable_insert :: "('a \<Rightarrow> 'a \<Rightarrow> bool) \<Rightarrow> 'a \<Rightarrow> 'a list \<Rightarrow> 'a list" where
  "stable_insert cmp x [] = [x]"
| "stable_insert cmp x (y # ys) =
     (if cmp y x then y # stable_insert cmp x ys else x # y # ys)"

definition stable_sort :: "('a \<Rightarrow> 'a \<Rightarrow> bool) \<Rightarrow> 'a list \<Rightarrow> 'a list" where
  "stable_sort cmp xs = foldr (stable_insert cmp) xs []"

text \<open>The loop \<open>for (auto ix: index) { out->paramids.push_back(header.paramids.at(ix)); ... }\<close>;
  \<open>at\<close> throws when the index is out of range.\<close>

fun push_back_all :: "UncompressedChunk \<Rightarrow> nat list \<Rightarrow> UncompressedChunk \<Rightarrow> fault + UncompressedChunk" where
  "push_back_all header [] out = Inr out"
| "push_back_all header (ix # index) out =
     (if ix < length (paramids header) then
        if ix < length (timestamps header) then
          if ix < length (values_col header) then
            push_back_all header index
              (out\<lparr>paramids := paramids out @ [paramids header ! ix],
                   timestamps := timestamps out @ [timestamps header ! ix],
                   values_col := values_col out @ [values_col header ! ix]\<rparr>)
          else Inl OutOfRange
        else Inl OutOfRange
      else Inl OutOfRange)"

definition reorder_chunk_header ::
  "UncompressedChunk \<Rightarrow> UncompressedChunk \<Rightarrow> (nat \<Rightarrow> nat \<Rightarrow> bool) \<Rightarrow> fault + (bool \<times> UncompressedChunk)" where
  "reorder_chunk_header header out f =
     (let len = length (timestamps header) in
      if len \<noteq> length (values_col header) \<or> len \<noteq> length (paramids header) then Inr (False, out)
      else
        let index = stable_sort f [0..<length (timestamps header)] in
        (case push_back_all header index out of
           Inl e \<Rightarrow> Inl e
         | Inr out' \<Rightarrow> Inr (True, out')))"

definition convert_from_chunk_order ::
  "UncompressedChunk \<Rightarrow> UncompressedChunk \<Rightarrow> fault + (bool \<times> UncompressedChunk)" where
  "convert_from_chunk_order header out =
     reorder_chunk_header header out (\<lambda>lhs rhs. timestamps header ! lhs < timestamps header ! rhs)"

definition convert_from_time_order ::
  "UncompressedChunk \<Rightarrow> UncompressedChunk \<Rightarrow> fault + (bool \<times> UncompressedChunk)" where
  "convert_from_time_order header out =
     reorder_chunk_header header out (\<lambda>lhs rhs. paramids header ! lhs < paramids header ! rhs)"

text \<open>What "a stable permutation of the rows by this key column" means for an index vector:
  a permutation of the positions, ascending in the key, and among positions with equal keys
  ascending in the position itself.\<close>

definition stable_perm :: "u64 list \<Rightarrow> nat list \<Rightarrow> bool" where
  "stable_perm keys index \<longleftrightarrow>
     length index = length keys \<and> distinct index \<and> set index = {0..<length keys}
     \<and> sorted (map ((!) keys) index)
     \<and> (\<forall>p q. p < q \<and> q < length keys \<and> keys ! (index ! p) = keys ! (index ! q) \<longrightarrow> index ! p < index ! q)"

section \<open>Byte streams (Base128StreamWriter, Base128StreamReader)\<close>

text \<open>Modelled from the spec: \<open>compression.h\<close>, which declares the byte streams, is not among
  the sources. Section 4.1 of the specification describes a bounded cursor over a buffer
  owned by the caller: \<open>put_raw<T>\<close> writes \<open>sizeof(T)\<close> bytes in host order and returns false
  when there is no room; \<open>allocate<T>\<close> reserves \<open>sizeof(T)\<close> bytes and returns a handle that is
  patched later (the null handle when there is no room: the constructor of
  \<open>DataBlockWriter\<close> tests for it); \<open>space_left\<close> is the number of bytes still available;
  the cursor is not rewound on failure. The host is little-endian: \<open>decode_value\<close> assembles
  what \<open>put_raw\<close> wrote from its bytes, lowest first.

  The buffer is the list of its bytes, \<open>pos\<close> the offset of the cursor from its beginning. The
  buffer keeps whatever the caller left in it, so a reserved field holds the caller's bytes
  until it is patched.\<close>

record Base128StreamWriter =
  buf :: "u8 list"
  pos :: nat

definition space_left :: "Base128StreamWriter \<Rightarrow> nat" where
  "space_left w = length (buf w) - pos w"

text \<open>\<open>size()\<close>: the bytes behind the cursor. The source asks for it in \<open>encode_chunk\<close> only,
  after every reserved field has been patched.\<close>

definition stream_size :: "Base128StreamWriter \<Rightarrow> nat" where
  "stream_size w = pos w"

text \<open>The bytes of a value in host order, lowest first, and back.\<close>

definition le_bytes :: "nat \<Rightarrow> 'a::len word \<Rightarrow> u8 list" where
  "le_bytes n v = map (\<lambda>i. ucast (drop_bit (8 * i) v)) [0..<n]"

fun from_le :: "u8 list \<Rightarrow> 'a::len word" where
  "from_le [] = 0"
| "from_le (b # bs) = ucast b OR push_bit 8 (from_le bs)"

text \<open>Storing bytes at an offset of the buffer (a write through a pointer into it).\<close>

definition store_bytes :: "nat \<Rightarrow> u8 list \<Rightarrow> u8 list \<Rightarrow> u8 list" where
  "store_bytes off bs b = take off b @ bs @ drop (off + length bs) b"

definition load_bytes :: "nat \<Rightarrow> nat \<Rightarrow> u8 list \<Rightarrow> u8 list" where
  "load_bytes off n b = take n (drop off b)"

definition put_bytes :: "u8 list \<Rightarrow> Base128StreamWriter \<Rightarrow> bool \<times> Base128StreamWriter" where
  "put_bytes bs w =
     (if space_left w < length bs then (False, w)
      else (True, w\<lparr>buf := store_bytes (pos w) bs (buf w), pos := pos w + length bs\<rparr>))"

definition put_raw_u8 :: "u8 \<Rightarrow> Base128StreamWriter \<Rightarrow> bool \<times> Base128StreamWriter" where
  "put_raw_u8 v = put_bytes [v]"

definition put_raw_u16 :: "u16 \<Rightarrow> Base128StreamWriter \<Rightarrow> bool \<times> Base128StreamWriter" where
  "put_raw_u16 v = put_bytes (le_bytes 2 v)"

definition put_raw_u32 :: "u32 \<Rightarrow> Base128StreamWriter \<Rightarrow> bool \<times> Base128StreamWriter" where
  "put_raw_u32 v = put_bytes (le_bytes 4 v)"

definition put_raw_u64 :: "u64 \<Rightarrow> Base128StreamWriter \<Rightarrow> bool \<times> Base128StreamWriter" where
  "put_raw_u64 v = put_bytes (le_bytes 8 v)"

text \<open>\<open>allocate<T>()\<close> for a \<open>T\<close> of \<open>n\<close> bytes: the handle is the offset of the reserved
  field, \<open>None\<close> the null pointer.\<close>

definition allocate :: "nat \<Rightarrow> Base128StreamWriter \<Rightarrow> nat option \<times> Base128StreamWriter" where
  "allocate n w =
     (if space_left w < n then (None, w) else (Some (pos w), w\<lparr>pos := pos w + n\<rparr>))"

text \<open>\<open>commit()\<close> of the byte stream. The source goes on writing to a stream after a
  commit (\<open>encode_block\<close> commits the timestamps and then writes the values to the same
  stream), so a commit leaves the stream as it is and succeeds.\<close>

definition stream_commit :: "Base128StreamWriter \<Rightarrow> bool \<times> Base128StreamWriter" where
  "stream_commit w = (True, w)"

text \<open>Two writes in a row, the second only when the first succeeded
  (\<open>if (!a) return false; if (!b) return false;\<close>).\<close>

definition and_then ::
  "('s \<Rightarrow> bool \<times> 's) \<Rightarrow> ('s \<Rightarrow> bool \<times> 's) \<Rightarrow> 's \<Rightarrow> bool \<times> 's" where
  "and_then f g s = (case f s of (ok, s') \<Rightarrow> if ok then g s' else (False, s'))"

text \<open>The reader is the list of the bytes not read yet; \<open>read_raw<T>\<close> fails the decode when
  fewer than \<open>sizeof(T)\<close> bytes are left.\<close>

type_synonym Base128StreamReader = "u8 list"

definition read_bytes :: "nat \<Rightarrow> Base128StreamReader \<Rightarrow> fault + (u8 list \<times> Base128StreamReader)" where
  "read_bytes n r = (if length r < n then Inl StreamOutOfBounds else Inr (take n r, drop n r))"

definition read_raw_u8 :: "Base128StreamReader \<Rightarrow> fault + (u8 \<times> Base128StreamReader)" where
  "read_raw_u8 r = (case r of [] \<Rightarrow> Inl StreamOutOfBounds | b # r' \<Rightarrow> Inr (b, r'))"

definition read_raw_u16 :: "Base128StreamReader \<Rightarrow> fault + (u16 \<times> Base128StreamReader)" where
  "read_raw_u16 r = (case read_bytes 2 r of Inl e \<Rightarrow> Inl e | Inr (bs, r') \<Rightarrow> Inr (from_le bs, r'))"

definition read_raw_u32 :: "Base128StreamReader \<Rightarrow> fault + (u32 \<times> Base128StreamReader)" where
  "read_raw_u32 r = (case read_bytes 4 r of Inl e \<Rightarrow> Inl e | Inr (bs, r') \<Rightarrow> Inr (from_le bs, r'))"

definition read_raw_u64 :: "Base128StreamReader \<Rightarrow> fault + (u64 \<times> Base128StreamReader)" where
  "read_raw_u64 r = (case read_bytes 8 r of Inl e \<Rightarrow> Inl e | Inr (bs, r') \<Rightarrow> Inr (from_le bs, r'))"

section \<open>Predictors (FcmPredictor, DfcmPredictor)\<close>

text \<open>\<open>table\<close> is the vector of \<open>table_size\<close> zeroes the constructor makes, \<open>MASK\<close> is
  \<open>table_size - 1\<close>. The constructor asserts that \<open>table_size\<close> is a power of two; the codec
  only ever passes \<open>PREDICTOR_N = 1 << 10\<close>. The trailing underscore of the member names
  (\<open>MASK_\<close>) is dropped.\<close>

record FcmPredictor =
  fcm_table :: "u64 list"
  fcm_last_hash :: u64
  fcm_MASK :: u64

definition FcmPredictor_new :: "nat \<Rightarrow> FcmPredictor" where
  "FcmPredictor_new table_size =
     \<lparr>fcm_table = replicate table_size 0, fcm_last_hash = 0, fcm_MASK = of_nat table_size - 1\<rparr>"

definition fcm_predict_next :: "FcmPredictor \<Rightarrow> u64" where
  "fcm_predict_next p = fcm_table p ! unat (fcm_last_hash p)"

definition fcm_update :: "u64 \<Rightarrow> FcmPredictor \<Rightarrow> FcmPredictor" where
  "fcm_update v p =
     p\<lparr>fcm_table := (fcm_table p)[unat (fcm_last_hash p) := v],
       fcm_last_hash := (push_bit 6 (fcm_last_hash p) XOR drop_bit 48 v) AND fcm_MASK p\<rparr>"

record DfcmPredictor =
  dfcm_table :: "u64 list"
  dfcm_last_hash :: u64
  dfcm_last_value :: u64
  dfcm_MASK :: u64

definition DfcmPredictor_new :: "nat \<Rightarrow> DfcmPredictor" where
  "DfcmPredictor_new table_size =
     \<lparr>dfcm_table = replicate table_size 0, dfcm_last_hash = 0, dfcm_last_value = 0,
      dfcm_MASK = of_nat table_size - 1\<rparr>"

definition dfcm_predict_next :: "DfcmPredictor \<Rightarrow> u64" where
  "dfcm_predict_next p = dfcm_table p ! unat (dfcm_last_hash p) + dfcm_last_value p"

definition dfcm_update :: "u64 \<Rightarrow> DfcmPredictor \<Rightarrow> DfcmPredictor" where
  "dfcm_update v p =
     p\<lparr>dfcm_table := (dfcm_table p)[unat (dfcm_last_hash p) := v - dfcm_last_value p],
       dfcm_last_hash :=
         (push_bit 2 (dfcm_last_hash p) XOR drop_bit 40 (v - dfcm_last_value p)) AND dfcm_MASK p,
       dfcm_last_value := v\<rparr>"

text \<open>\<open>PredictorT\<close> is a typedef of \<open>compression.h\<close> for one of the two predictors; which one
  is not in the sources, so the codec takes the choice as a parameter.\<close>

datatype PredictorT = Fcm FcmPredictor | Dfcm DfcmPredictor

datatype predictor_kind = UseFcm | UseDfcm

definition PREDICTOR_N :: nat where
  "PREDICTOR_N = 2 ^ 10"

fun PredictorT_new :: "predictor_kind \<Rightarrow> nat \<Rightarrow> PredictorT" where
  "PredictorT_new UseFcm n = Fcm (FcmPredictor_new n)"
| "PredictorT_new UseDfcm n = Dfcm (DfcmPredictor_new n)"

fun predict_next :: "PredictorT \<Rightarrow> u64" where
  "predict_next (Fcm p) = fcm_predict_next p"
| "predict_next (Dfcm p) = dfcm_predict_next p"

fun update :: "u64 \<Rightarrow> PredictorT \<Rightarrow> PredictorT" where
  "update v (Fcm p) = Fcm (fcm_update v p)"
| "update v (Dfcm p) = Dfcm (dfcm_update v p)"

section \<open>Double codec (encode\_value, decode\_value, FcmStreamWriter, FcmStreamReader)\<close>

text \<open>\<open>__builtin_ctzl\<close> and \<open>__builtin_clzl\<close> on a 64-bit \<open>unsigned long\<close>: the number of zero
  bits below the lowest, and above the highest, set bit. The source calls them for a non-zero
  argument only.\<close>

definition ctzl :: "u64 \<Rightarrow> nat" where
  "ctzl x = length (takeWhile (\<lambda>i. \<not> bit x i) [0..<64])"

definition clzl :: "u64 \<Rightarrow> nat" where
  "clzl x = length (takeWhile (\<lambda>i. \<not> bit x i) (rev [0..<64]))"

text \<open>The labels of the \<open>switch (nbytes)\<close> in \<open>encode_value\<close>. Cases 7, 6 and 5 fall through
  to case 4, which ends with \<open>break\<close>; cases 3 and 2 fall through to case 1.\<close>

definition encode_case_4 :: "u64 \<Rightarrow> Base128StreamWriter \<Rightarrow> bool \<times> Base128StreamWriter" where
  "encode_case_4 diff = put_raw_u32 (ucast (diff AND 0xFFFFFFFF))"

definition encode_case_5 :: "u64 \<Rightarrow> Base128StreamWriter \<Rightarrow> bool \<times> Base128StreamWriter" where
  "encode_case_5 diff = and_then (put_raw_u8 (ucast (diff AND 0xFF))) (encode_case_4 (drop_bit 8 diff))"

definition encode_case_6 :: "u64 \<Rightarrow> Base128StreamWriter \<Rightarrow> bool \<times> Base128StreamWriter" where
  "encode_case_6 diff = and_then (put_raw_u8 (ucast (diff AND 0xFF))) (encode_case_5 (drop_bit 8 diff))"

definition encode_case_7 :: "u64 \<Rightarrow> Base128StreamWriter \<Rightarrow> bool \<times> Base128StreamWriter" where
  "encode_case_7 diff = and_then (put_raw_u8 (ucast (diff AND 0xFF))) (encode_case_6 (drop_bit 8 diff))"

definition encode_case_1 :: "u64 \<Rightarrow> Base128StreamWriter \<Rightarrow> bool \<times> Base128StreamWriter" where
  "encode_case_1 diff = put_raw_u8 (ucast (diff AND 0xFF))"

definition encode_case_2 :: "u64 \<Rightarrow> Base128StreamWriter \<Rightarrow> bool \<times> Base128StreamWriter" where
  "encode_case_2 diff = and_then (put_raw_u8 (ucast (diff AND 0xFF))) (encode_case_1 (drop_bit 8 diff))"

definition encode_case_3 :: "u64 \<Rightarrow> Base128StreamWriter \<Rightarrow> bool \<times> Base128StreamWriter" where
  "encode_case_3 diff = and_then (put_raw_u8 (ucast (diff AND 0xFF))) (encode_case_2 (drop_bit 8 diff))"

text \<open>\<open>flag >> 3\<close> is 0 or 1 for the flags the codec makes (they are below 16).\<close>

definition encode_value :: "u64 \<Rightarrow> u8 \<Rightarrow> Base128StreamWriter \<Rightarrow> bool \<times> Base128StreamWriter" where
  "encode_value diff0 flag wstream =
     (let nbytes = unat (flag AND 7) + 1;
          nshift = (64 - nbytes * 8) * unat (drop_bit 3 flag);
          diff = drop_bit nshift diff0
      in if nbytes = 8 then put_raw_u64 diff wstream
         else if nbytes = 7 then encode_case_7 diff wstream
         else if nbytes = 6 then encode_case_6 diff wstream
         else if nbytes = 5 then encode_case_5 diff wstream
         else if nbytes = 4 then encode_case_4 diff wstream
         else if nbytes = 3 then encode_case_3 diff wstream
         else if nbytes = 2 then encode_case_2 diff wstream
         else if nbytes = 1 then encode_case_1 diff wstream
         else (True, wstream))"

text \<open>The loop \<open>for (int i = 0; i < nbytes; i++)\<close> of \<open>decode_value\<close>.\<close>

function decode_value_loop ::
  "nat \<Rightarrow> nat \<Rightarrow> u64 \<Rightarrow> Base128StreamReader \<Rightarrow> fault + (u64 \<times> Base128StreamReader)" where
  "decode_value_loop i nbytes diff rstream =
     (if i < nbytes then
        (case read_raw_u8 rstream of
           Inl e \<Rightarrow> Inl e
         | Inr (delta, rstream') \<Rightarrow>
             decode_value_loop (i + 1) nbytes (diff OR push_bit (i * 8) (ucast delta)) rstream')
      else Inr (diff, rstream))"
  by pat_completeness auto
termination
  by (relation "measure (\<lambda>(i, nbytes, diff, rstream). nbytes - i)") auto

definition decode_value :: "Base128StreamReader \<Rightarrow> u8 \<Rightarrow> fault + (u64 \<times> Base128StreamReader)" where
  "decode_value rstream flag =
     (let nbytes = unat (flag AND 7) + 1 in
      case decode_value_loop 0 nbytes 0 rstream of
        Inl e \<Rightarrow> Inl e
      | Inr (diff, rstream') \<Rightarrow>
          (let shift_width = (64 - nbytes * 8) * unat (drop_bit 3 flag)
           in Inr (push_bit shift_width diff, rstream')))"

text \<open>The flag of a residual, as \<open>FcmStreamWriter::put\<close> and \<open>compress_doubles\<close> both compute
  it (the two functions hold the same lines).\<close>

definition flag_of_diff :: "u64 \<Rightarrow> u8" where
  "flag_of_diff diff =
     (let leading_zeros = (if diff \<noteq> 0 then clzl diff else 64);
          trailing_zeros = (if diff \<noteq> 0 then ctzl diff else 64)
      in if trailing_zeros > leading_zeros then
           (let nbytes = 8 - trailing_zeros div 8;
                nbytes' = (if nbytes > 0 then nbytes - 1 else nbytes)
            in 8 OR (of_nat nbytes' AND 7))
         else
           (let nbytes = 8 - leading_zeros div 8;
                nbytes' = (if nbytes > 0 then nbytes - 1 else nbytes)
            in of_nat nbytes' AND 7))"

text \<open>\<open>FcmStreamWriter\<close> holds a reference to the byte stream it shares with the timestamp
  writer; the model passes the stream beside the writer's own members.\<close>

record FcmStreamWriter =
  predictor :: PredictorT
  prev_diff :: u64
  prev_flag :: u8
  nelements :: nat

definition FcmStreamWriter_new :: "predictor_kind \<Rightarrow> FcmStreamWriter" where
  "FcmStreamWriter_new pk =
     \<lparr>predictor = PredictorT_new pk PREDICTOR_N, prev_diff = 0, prev_flag = 0, nelements = 0\<rparr>"

definition FcmStreamWriter_put ::
  "double \<Rightarrow> FcmStreamWriter \<Rightarrow> Base128StreamWriter \<Rightarrow> bool \<times> FcmStreamWriter \<times> Base128StreamWriter" where
  "FcmStreamWriter_put v s stream =
     (let predicted = predict_next (predictor s);
          s1 = s\<lparr>predictor := update v (predictor s)\<rparr>;
          diff = v XOR predicted;
          flag = flag_of_diff diff
      in if nelements s mod 2 = 0 then
           (True, s1\<lparr>prev_diff := diff, prev_flag := flag, nelements := nelements s + 1\<rparr>, stream)
         else
           (let flags = push_bit 4 (prev_flag s) OR flag in
            case put_raw_u8 flags stream of
              (False, stream1) \<Rightarrow> (False, s1, stream1)
            | (True, stream1) \<Rightarrow>
                (case encode_value (prev_diff s) (prev_flag s) stream1 of
                   (False, stream2) \<Rightarrow> (False, s1, stream2)
                 | (True, stream2) \<Rightarrow>
                     (case encode_value diff flag stream2 of
                        (False, stream3) \<Rightarrow> (False, s1, stream3)
                      | (True, stream3) \<Rightarrow>
                          (True, s1\<lparr>nelements := nelements s + 1\<rparr>, stream3)))))"

definition FcmStreamWriter_commit ::
  "FcmStreamWriter \<Rightarrow> Base128StreamWriter \<Rightarrow> bool \<times> FcmStreamWriter \<times> Base128StreamWriter" where
  "FcmStreamWriter_commit s stream =
     (if nelements s mod 2 \<noteq> 0 then
        (let flags = push_bit 4 (prev_flag s) in
         case put_raw_u8 flags stream of
           (False, stream1) \<Rightarrow> (False, s, stream1)
         | (True, stream1) \<Rightarrow>
             (case encode_value (prev_diff s) (prev_flag s) stream1 of
                (False, stream2) \<Rightarrow> (False, s, stream2)
              | (True, stream2) \<Rightarrow>
                  (case encode_value 0 0 stream2 of
                     (False, stream3) \<Rightarrow> (False, s, stream3)
                   | (True, stream3) \<Rightarrow>
                       (case stream_commit stream3 of (ok, stream4) \<Rightarrow> (ok, s, stream4)))))
      else (case stream_commit stream of (ok, stream1) \<Rightarrow> (ok, s, stream1)))"

text \<open>\<open>FcmStreamWriter::tput(values, n)\<close>, with the array and its length as a list.\<close>

fun FcmStreamWriter_tput ::
  "double list \<Rightarrow> FcmStreamWriter \<Rightarrow> Base128StreamWriter \<Rightarrow> bool \<times> FcmStreamWriter \<times> Base128StreamWriter" where
  "FcmStreamWriter_tput [] s stream = FcmStreamWriter_commit s stream"
| "FcmStreamWriter_tput (v # vs) s stream =
     (case FcmStreamWriter_put v s stream of
        (False, s', stream') \<Rightarrow> (False, s', stream')
      | (True, s', stream') \<Rightarrow> FcmStreamWriter_tput vs s' stream')"

text \<open>\<open>compress_doubles\<close>: the loop over \<open>input\<close> (the part of it from \<open>ix\<close> on), which drops
  the result of every write. The locals \<open>prev_diff\<close> and \<open>prev_flag\<close> are \<open>l_prev_diff\<close> and
  \<open>l_prev_flag\<close> here.\<close>

fun compress_doubles_loop ::
  "nat \<Rightarrow> double list \<Rightarrow> PredictorT \<Rightarrow> u64 \<Rightarrow> u8 \<Rightarrow> Base128StreamWriter
   \<Rightarrow> u64 \<times> u8 \<times> Base128StreamWriter" where
  "compress_doubles_loop ix [] pr l_prev_diff l_prev_flag wstream = (l_prev_diff, l_prev_flag, wstream)"
| "compress_doubles_loop ix (v # rest) pr l_prev_diff l_prev_flag wstream =
     (let predicted = predict_next pr;
          pr' = update v pr;
          diff = v XOR predicted;
          flag = flag_of_diff diff
      in if ix mod 2 = 0 then compress_doubles_loop (ix + 1) rest pr' diff flag wstream
         else
           (let flags = push_bit 4 l_prev_flag OR flag;
                wstream1 = snd (put_raw_u8 flags wstream);
                wstream2 = snd (encode_value l_prev_diff l_prev_flag wstream1);
                wstream3 = snd (encode_value diff flag wstream2)
            in compress_doubles_loop (ix + 1) rest pr' l_prev_diff l_prev_flag wstream3))"

definition compress_doubles ::
  "predictor_kind \<Rightarrow> double list \<Rightarrow> Base128StreamWriter \<Rightarrow> nat \<times> Base128StreamWriter" where
  "compress_doubles pk input wstream =
     (case compress_doubles_loop 0 input (PredictorT_new pk PREDICTOR_N) 0 0 wstream of
        (l_prev_diff, l_prev_flag, wstream') \<Rightarrow>
          if length input mod 2 \<noteq> 0 then
            (let flags = push_bit 4 l_prev_flag;
                 wstream1 = snd (put_raw_u8 flags wstream');
                 wstream2 = snd (encode_value l_prev_diff l_prev_flag wstream1);
                 wstream3 = snd (encode_value 0 0 wstream2)
             in (length input, wstream3))
          else (length input, wstream'))"

text \<open>\<open>flags_\<close> is an \<open>int\<close> that holds the last control byte read.\<close>

record FcmStreamReader =
  rd_predictor :: PredictorT
  rd_flags :: u8
  rd_iter :: nat

definition FcmStreamReader_new :: "predictor_kind \<Rightarrow> FcmStreamReader" where
  "FcmStreamReader_new pk = \<lparr>rd_predictor = PredictorT_new pk PREDICTOR_N, rd_flags = 0, rd_iter = 0\<rparr>"

definition FcmStreamReader_next ::
  "FcmStreamReader \<Rightarrow> Base128StreamReader \<Rightarrow> fault + (double \<times> FcmStreamReader \<times> Base128StreamReader)" where
  "FcmStreamReader_next s stream =
     (case (if rd_iter s mod 2 = 0 then
              (case read_raw_u8 stream of
                 Inl e \<Rightarrow> Inl e
               | Inr (b, stream1) \<Rightarrow> Inr (drop_bit 4 b, s\<lparr>rd_flags := b, rd_iter := rd_iter s + 1\<rparr>, stream1))
            else Inr (rd_flags s AND 0xF, s\<lparr>rd_iter := rd_iter s + 1\<rparr>, stream)) of
        Inl e \<Rightarrow> Inl e
      | Inr (flag, s1, stream1) \<Rightarrow>
          (case decode_value stream1 flag of
             Inl e \<Rightarrow> Inl e
           | Inr (diff, stream2) \<Rightarrow>
               (let predicted = predict_next (rd_predictor s1);
                    bits = predicted XOR diff
                in Inr (bits, s1\<lparr>rd_predictor := update bits (rd_predictor s1)\<rparr>, stream2))))"

text \<open>\<open>decompress_doubles\<close>: \<open>output\<close> is a vector the caller has sized; \<open>it\<close> is the offset of
  the iterator into it, \<open>end\<close> its length.\<close>

function decompress_doubles_loop ::
  "nat \<Rightarrow> nat \<Rightarrow> PredictorT \<Rightarrow> u8 \<Rightarrow> nat \<Rightarrow> double list \<Rightarrow> Base128StreamReader
   \<Rightarrow> fault + (double list \<times> Base128StreamReader)" where
  "decompress_doubles_loop i numvalues pr flags it output rstream =
     (if i < numvalues then
        (case (if i mod 2 = 0 then
                 (case read_raw_u8 rstream of
                    Inl e \<Rightarrow> Inl e
                  | Inr (b, rstream1) \<Rightarrow> Inr (drop_bit 4 b, b, rstream1))
               else Inr (flags AND 0xF, flags, rstream)) of
           Inl e \<Rightarrow> Inl e
         | Inr (flag, flags', rstream1) \<Rightarrow>
             (case decode_value rstream1 flag of
                Inl e \<Rightarrow> Inl e
              | Inr (diff, rstream2) \<Rightarrow>
                  (let predicted = predict_next pr;
                       bits = predicted XOR diff;
                       pr' = update bits pr
                   in if it < length output then
                        decompress_doubles_loop (i + 1) numvalues pr' flags' (it + 1)
                          (output[it := bits]) rstream2
                      else Inl (Panic ''can't decode doubles, not enough space inside the out buffer''))))
      else Inr (output, rstream))"
  by pat_completeness auto
termination
  by (relation "measure (\<lambda>(i, numvalues, pr, flags, it, output, rstream). numvalues - i)") auto

definition decompress_doubles ::
  "predictor_kind \<Rightarrow> Base128StreamReader \<Rightarrow> nat \<Rightarrow> double list
   \<Rightarrow> fault + (double list \<times> Base128StreamReader)" where
  "decompress_doubles pk rstream numvalues output =
     decompress_doubles_loop 0 numvalues (PredictorT_new pk PREDICTOR_N) 0 0 output rstream"

section \<open>Timestamp codec (DeltaRLEWriter, DeltaRLEReader)\<close>

text \<open>Modelled from the spec: the timestamp codec is declared in \<open>compression.h\<close>, which is
  not among the sources. Section 4.4 of the specification gives its surface (\<open>put\<close>, \<open>tput\<close>
  and \<open>commit\<close> of the writer, \<open>next\<close> of the reader, over the byte stream it shares with the
  double codec) and what it must do: delta-encode against the previous timestamp,
  run-length-collapse repeated deltas, variable-length-encode the residuals. The layout is
  left to the codec; the model takes the plainest one that does the three things:
  \<^item> a value is written in base 128, seven bits to a byte, lowest first, the high bit of a
    byte saying that another byte follows; a value that does not fit into the space left is
    not written at all;
  \<^item> a run of equal deltas is written as two such values, the number of repetitions and the
    delta, when a different delta arrives or when the writer is flushed;
  \<^item> \<open>tput\<close> puts the values of the batch and flushes the open run, \<open>commit\<close> flushes the
    open run, so that every batch and the tail begin a run of their own;
  \<^item> all arithmetic is that of \<open>uint64_t\<close>.\<close>

function base128 :: "u64 \<Rightarrow> u8 list" where
  "base128 v = (if v < 128 then [ucast v] else (ucast v OR 128) # base128 (drop_bit 7 v))"
  by pat_completeness auto
termination
proof (relation "measure unat")
  show "wf (measure unat)" by simp
next
  fix v :: u64
  assume "\<not> v < 128"
  then have "128 \<le> unat v" by (simp add: word_less_nat_alt)
  then have "unat v div 2 ^ 7 < unat v" by simp
  then show "(drop_bit 7 v, v) \<in> measure unat"
    by (simp add: drop_bit_eq_div unat_div)
qed

definition put_base128 :: "u64 \<Rightarrow> Base128StreamWriter \<Rightarrow> bool \<times> Base128StreamWriter" where
  "put_base128 v = put_bytes (base128 v)"

fun get_base128 :: "Base128StreamReader \<Rightarrow> fault + (u64 \<times> Base128StreamReader)" where
  "get_base128 [] = Inl StreamOutOfBounds"
| "get_base128 (b # r) =
     (if b < 128 then Inr (ucast b, r)
      else (case get_base128 r of
              Inl e \<Rightarrow> Inl e
            | Inr (v, r') \<Rightarrow> Inr (ucast (b AND 127) OR push_bit 7 v, r')))"

text \<open>The writer: the previous timestamp, the delta of the open run and its length so far, and
  the size of the stream when the writer was made (for \<open>size()\<close>).\<close>

record DeltaRLEWriter =
  dw_prev :: u64
  dw_run :: u64
  dw_reps :: u64
  dw_start :: nat

definition DeltaRLEWriter_new :: "Base128StreamWriter \<Rightarrow> DeltaRLEWriter" where
  "DeltaRLEWriter_new stream = \<lparr>dw_prev = 0, dw_run = 0, dw_reps = 0, dw_start = stream_size stream\<rparr>"

definition DeltaRLEWriter_size :: "DeltaRLEWriter \<Rightarrow> Base128StreamWriter \<Rightarrow> nat" where
  "DeltaRLEWriter_size s stream = stream_size stream - dw_start s"

definition DeltaRLEWriter_flush ::
  "DeltaRLEWriter \<Rightarrow> Base128StreamWriter \<Rightarrow> bool \<times> DeltaRLEWriter \<times> Base128StreamWriter" where
  "DeltaRLEWriter_flush s stream =
     (if dw_reps s \<noteq> 0 then
        (case put_base128 (dw_reps s) stream of
           (False, stream1) \<Rightarrow> (False, s, stream1)
         | (True, stream1) \<Rightarrow>
             (case put_base128 (dw_run s) stream1 of
                (False, stream2) \<Rightarrow> (False, s, stream2)
              | (True, stream2) \<Rightarrow> (True, s\<lparr>dw_reps := 0\<rparr>, stream2)))
      else (True, s, stream))"

definition DeltaRLEWriter_put ::
  "u64 \<Rightarrow> DeltaRLEWriter \<Rightarrow> Base128StreamWriter \<Rightarrow> bool \<times> DeltaRLEWriter \<times> Base128StreamWriter" where
  "DeltaRLEWriter_put v s stream =
     (let delta = v - dw_prev s in
      if delta \<noteq> dw_run s then
        (case DeltaRLEWriter_flush s stream of
           (False, s1, stream1) \<Rightarrow> (False, s1, stream1)
         | (True, s1, stream1) \<Rightarrow> (True, s1\<lparr>dw_prev := v, dw_run := delta, dw_reps := 1\<rparr>, stream1))
      else (True, s\<lparr>dw_prev := v, dw_reps := dw_reps s + 1\<rparr>, stream))"

definition DeltaRLEWriter_commit ::
  "DeltaRLEWriter \<Rightarrow> Base128StreamWriter \<Rightarrow> bool \<times> DeltaRLEWriter \<times> Base128StreamWriter" where
  "DeltaRLEWriter_commit s stream =
     (case DeltaRLEWriter_flush s stream of
        (False, s1, stream1) \<Rightarrow> (False, s1, stream1)
      | (True, s1, stream1) \<Rightarrow> (case stream_commit stream1 of (ok, stream2) \<Rightarrow> (ok, s1, stream2)))"

fun DeltaRLEWriter_tput ::
  "u64 list \<Rightarrow> DeltaRLEWriter \<Rightarrow> Base128StreamWriter \<Rightarrow> bool \<times> DeltaRLEWriter \<times> Base128StreamWriter" where
  "DeltaRLEWriter_tput [] s stream = DeltaRLEWriter_commit s stream"
| "DeltaRLEWriter_tput (v # vs) s stream =
     (case DeltaRLEWriter_put v s stream of
        (False, s', stream') \<Rightarrow> (False, s', stream')
      | (True, s', stream') \<Rightarrow> DeltaRLEWriter_tput vs s' stream')"

text \<open>The reader: the previous timestamp, the delta of the run being read and how many
  repetitions of it are left.\<close>

record DeltaRLEReader =
  dr_prev :: u64
  dr_run :: u64
  dr_reps :: u64

definition DeltaRLEReader_new :: DeltaRLEReader where
  "DeltaRLEReader_new = \<lparr>dr_prev = 0, dr_run = 0, dr_reps = 0\<rparr>"

definition DeltaRLEReader_next ::
  "DeltaRLEReader \<Rightarrow> Base128StreamReader \<Rightarrow> fault + (u64 \<times> DeltaRLEReader \<times> Base128StreamReader)" where
  "DeltaRLEReader_next s stream =
     (case (if dr_reps s = 0 then
              (case get_base128 stream of
                 Inl e \<Rightarrow> Inl e
               | Inr (reps, stream1) \<Rightarrow>
                   (case get_base128 stream1 of
                      Inl e \<Rightarrow> Inl e
                    | Inr (run, stream2) \<Rightarrow> Inr (s\<lparr>dr_run := run, dr_reps := reps\<rparr>, stream2)))
            else Inr (s, stream)) of
        Inl e \<Rightarrow> Inl e
      | Inr (s1, stream') \<Rightarrow>
          (let v = dr_prev s1 + dr_run s1
           in Inr (v, s1\<lparr>dr_prev := v, dr_reps := dr_reps s1 - 1\<rparr>, stream')))"

section \<open>Blocks of one series (encode\_block, decode\_block)\<close>

datatype aku_Status = AKU_SUCCESS | AKU_EOVERFLOW | AKU_EBAD_ARG | AKU_EBAD_DATA

text \<open>\<open>SeriesSlice\<close> is declared in \<open>compression.h\<close>; the members are the ones the source uses:
  \<open>id\<close>, the arrays \<open>ts\<close> and \<open>value\<close>, \<open>size\<close> and \<open>offset\<close>. The arrays are lists here, and a
  slice is well formed when \<open>offset\<close> is at most \<open>size\<close> and both arrays hold \<open>size\<close> elements
  (the source reads and writes them without a check).\<close>

record SeriesSlice =
  slice_id :: u64
  slice_ts :: "u64 list"
  slice_value :: "double list"
  slice_size :: nat
  slice_offset :: nat

definition slice_ok :: "SeriesSlice \<Rightarrow> bool" where
  "slice_ok s \<longleftrightarrow>
     slice_offset s \<le> slice_size s \<and> slice_size s \<le> length (slice_ts s)
     \<and> slice_size s \<le> length (slice_value s)"

definition BATCH_SIZE :: nat where
  "BATCH_SIZE = 16"

text \<open>The large loop of \<open>encode_block\<close>; \<open>count\<close> is a \<open>uint32_t\<close>.\<close>

function encode_block_batches ::
  "nat \<Rightarrow> nat \<Rightarrow> SeriesSlice \<Rightarrow> DeltaRLEWriter \<Rightarrow> FcmStreamWriter \<Rightarrow> Base128StreamWriter \<Rightarrow> u32
   \<Rightarrow> DeltaRLEWriter \<times> FcmStreamWriter \<times> Base128StreamWriter \<times> u32" where
  "encode_block_batches ix batchend sl tstream vstream stream count =
     (if ix < batchend then
        (case DeltaRLEWriter_tput (take BATCH_SIZE (drop ix (slice_ts sl))) tstream stream of
           (False, tstream', stream') \<Rightarrow> (tstream', vstream, stream', count)
         | (True, tstream', stream') \<Rightarrow>
             (case FcmStreamWriter_tput (take BATCH_SIZE (drop ix (slice_value sl))) vstream stream' of
                (False, vstream', stream'') \<Rightarrow> (tstream', vstream', stream'', count)
              | (True, vstream', stream'') \<Rightarrow>
                  encode_block_batches (ix + BATCH_SIZE) batchend sl tstream' vstream' stream''
                    (count + of_nat BATCH_SIZE)))
      else (tstream, vstream, stream, count))"
  by pat_completeness auto
termination
  by (relation "measure (\<lambda>(ix, batchend, sl, tstream, vstream, stream, count). batchend - ix)")
     (auto simp: BATCH_SIZE_def)

text \<open>The two inner loops of the small loop: \<open>break\<close> leaves the \<open>for\<close> loop only, so what
  follows the loop runs whether a \<open>put\<close> failed or not.\<close>

fun put_timestamps ::
  "u64 list \<Rightarrow> DeltaRLEWriter \<Rightarrow> Base128StreamWriter \<Rightarrow> DeltaRLEWriter \<times> Base128StreamWriter" where
  "put_timestamps [] tstream stream = (tstream, stream)"
| "put_timestamps (x # xs) tstream stream =
     (case DeltaRLEWriter_put x tstream stream of
        (False, tstream', stream') \<Rightarrow> (tstream', stream')
      | (True, tstream', stream') \<Rightarrow> put_timestamps xs tstream' stream')"

fun put_values ::
  "double list \<Rightarrow> FcmStreamWriter \<Rightarrow> Base128StreamWriter \<Rightarrow> FcmStreamWriter \<times> Base128StreamWriter" where
  "put_values [] vstream stream = (vstream, stream)"
| "put_values (x # xs) vstream stream =
     (case FcmStreamWriter_put x vstream stream of
        (False, vstream', stream') \<Rightarrow> (vstream', stream')
      | (True, vstream', stream') \<Rightarrow> put_values xs vstream' stream')"

text \<open>The small loop, \<open>do { ... } while (false)\<close>: the elements from \<open>offset + count\<close> up to
  \<open>size\<close>, and \<open>count += tailsize\<close> when both commits succeed.\<close>

definition encode_block_tail ::
  "SeriesSlice \<Rightarrow> nat \<Rightarrow> DeltaRLEWriter \<Rightarrow> FcmStreamWriter \<Rightarrow> Base128StreamWriter \<Rightarrow> u32
   \<Rightarrow> Base128StreamWriter \<times> u32" where
  "encode_block_tail sl tailsize tstream vstream stream count =
     (let first = slice_offset sl + unat count in
      case put_timestamps (drop first (take (slice_size sl) (slice_ts sl))) tstream stream of
        (tstream1, stream1) \<Rightarrow>
          (case DeltaRLEWriter_commit tstream1 stream1 of
             (False, tstream2, stream2) \<Rightarrow> (stream2, count)
           | (True, tstream2, stream2) \<Rightarrow>
               (case put_values (drop first (take (slice_size sl) (slice_value sl))) vstream stream2 of
                  (vstream1, stream3) \<Rightarrow>
                    (case FcmStreamWriter_commit vstream1 stream3 of
                       (False, vstream2, stream4) \<Rightarrow> (stream4, count)
                     | (True, vstream2, stream4) \<Rightarrow> (stream4, count + of_nat tailsize)))))"

text \<open>\<open>encode_block(slice, buffer, size)\<close>. \<open>AKUMULI_VERSION\<close> (of \<open>akumuli_version.h\<close>, not among
  the sources) is the parameter \<open>version\<close>. The result is the status, the slice and the buffer;
  the source writes through the three handles without testing them for null.\<close>

definition encode_block ::
  "u16 \<Rightarrow> predictor_kind \<Rightarrow> SeriesSlice \<Rightarrow> u8 list \<Rightarrow> fault + (aku_Status \<times> SeriesSlice \<times> u8 list)" where
  "encode_block version pk sl buffer =
     (case allocate 2 \<lparr>buf = buffer, pos = 0\<rparr> of (pversion, stream1) \<Rightarrow>
     (case allocate 4 stream1 of (pcount, stream2) \<Rightarrow>
     (case allocate 8 stream2 of (pseries, stream3) \<Rightarrow>
     (case pversion of None \<Rightarrow> Inl NullDeref | Some pv \<Rightarrow>
     (case pseries of None \<Rightarrow> Inl NullDeref | Some ps \<Rightarrow>
        (let stream4 = stream3\<lparr>buf := store_bytes ps (le_bytes 8 (slice_id sl))
                                   (store_bytes pv (le_bytes 2 version) (buf stream3))\<rparr>;
             tstream = DeltaRLEWriter_new stream4;
             vstream = FcmStreamWriter_new pk;
             nbatches = (slice_size sl - slice_offset sl) div BATCH_SIZE;
             tailsize = (slice_size sl - slice_offset sl) mod BATCH_SIZE;
             batchend = slice_offset sl + nbatches * BATCH_SIZE
         in (case encode_block_batches (slice_offset sl) batchend sl tstream vstream stream4 0 of
              (tstream', vstream', stream5, count) \<Rightarrow>
                (case encode_block_tail sl tailsize tstream' vstream' stream5 count of
                   (stream6, count') \<Rightarrow>
                     (case pcount of
                        None \<Rightarrow> Inl NullDeref
                      | Some pc \<Rightarrow>
                          Inr (AKU_SUCCESS,
                               sl\<lparr>slice_offset := slice_offset sl + unat count'\<rparr>,
                               store_bytes pc (le_bytes 4 count') (buf stream6)))))))))))"

text \<open>\<open>number_of_elements_in_block\<close> reads a \<open>uint32_t\<close> at the very beginning of the buffer.\<close>

definition number_of_elements_in_block :: "u8 list \<Rightarrow> fault + u32" where
  "number_of_elements_in_block buffer =
     (case read_raw_u32 buffer of Inl e \<Rightarrow> Inl e | Inr (n, r) \<Rightarrow> Inr n)"

text \<open>The loops of \<open>decode_block\<close> that read \<open>n\<close> values into the destination array from index
  \<open>at\<close> on. A fault leaves the array as far as it has been written.\<close>

fun read_timestamps ::
  "nat \<Rightarrow> nat \<Rightarrow> DeltaRLEReader \<Rightarrow> Base128StreamReader \<Rightarrow> u64 list
   \<Rightarrow> (fault \<times> u64 list) + (DeltaRLEReader \<times> Base128StreamReader \<times> u64 list)" where
  "read_timestamps 0 at tstream stream dest = Inr (tstream, stream, dest)"
| "read_timestamps (Suc n) at tstream stream dest =
     (case DeltaRLEReader_next tstream stream of
        Inl e \<Rightarrow> Inl (e, dest)
      | Inr (x, tstream', stream') \<Rightarrow> read_timestamps n (at + 1) tstream' stream' (dest[at := x]))"

fun read_values ::
  "nat \<Rightarrow> nat \<Rightarrow> FcmStreamReader \<Rightarrow> Base128StreamReader \<Rightarrow> double list
   \<Rightarrow> (fault \<times> double list) + (FcmStreamReader \<times> Base128StreamReader \<times> double list)" where
  "read_values 0 at vstream stream dest = Inr (vstream, stream, dest)"
| "read_values (Suc n) at vstream stream dest =
     (case FcmStreamReader_next vstream stream of
        Inl e \<Rightarrow> Inl (e, dest)
      | Inr (x, vstream', stream') \<Rightarrow> read_values n (at + 1) vstream' stream' (dest[at := x]))"

text \<open>The large loop of \<open>decode_block\<close>.\<close>

function decode_block_batches ::
  "nat \<Rightarrow> nat \<Rightarrow> DeltaRLEReader \<Rightarrow> FcmStreamReader \<Rightarrow> Base128StreamReader \<Rightarrow> SeriesSlice
   \<Rightarrow> (fault \<times> SeriesSlice) + (DeltaRLEReader \<times> FcmStreamReader \<times> Base128StreamReader \<times> SeriesSlice)" where
  "decode_block_batches ix batchend tstream vstream stream dest =
     (if ix < batchend then
        (case read_timestamps BATCH_SIZE ix tstream stream (slice_ts dest) of
           Inl (e, ts') \<Rightarrow> Inl (e, dest\<lparr>slice_ts := ts'\<rparr>)
         | Inr (tstream', stream', ts') \<Rightarrow>
             (case read_values BATCH_SIZE ix vstream stream' (slice_value dest) of
                Inl (e, value') \<Rightarrow> Inl (e, dest\<lparr>slice_ts := ts', slice_value := value'\<rparr>)
              | Inr (vstream', stream'', value') \<Rightarrow>
                  decode_block_batches (ix + BATCH_SIZE) batchend tstream' vstream' stream''
                    (dest\<lparr>slice_ts := ts', slice_value := value'\<rparr>)))
      else Inr (tstream, vstream, stream, dest))"
  by pat_completeness auto
termination
  by (relation "measure (\<lambda>(ix, batchend, tstream, vstream, stream, dest). batchend - ix)")
     (auto simp: BATCH_SIZE_def)

text \<open>\<open>decode_block(buffer, buffer_size, dest)\<close>. A fault comes with the destination as it is
  at that moment; \<open>AKU_PANIC\<close> ends the call.\<close>

definition decode_block ::
  "u16 \<Rightarrow> predictor_kind \<Rightarrow> u8 list \<Rightarrow> SeriesSlice
   \<Rightarrow> (fault \<times> SeriesSlice) + (aku_Status \<times> SeriesSlice)" where
  "decode_block akumuli_version pk buffer dest =
     (case read_raw_u16 buffer of Inl e \<Rightarrow> Inl (e, dest) | Inr (version, stream1) \<Rightarrow>
     (case read_raw_u32 stream1 of Inl e \<Rightarrow> Inl (e, dest) | Inr (nitems, stream2) \<Rightarrow>
     (case read_raw_u64 stream2 of Inl e \<Rightarrow> Inl (e, dest) | Inr (series, stream3) \<Rightarrow>
        if version \<noteq> akumuli_version then Inl (Panic ''version mismatch'', dest)
        else
          (let dest1 = dest\<lparr>slice_id := series\<rparr>;
               offset = slice_offset dest1
           in if slice_size dest1 < slice_offset dest1 \<or> slice_size dest1 - offset < unat nitems
              then Inr (AKU_EBAD_ARG, dest1)
              else
                (let tstream = DeltaRLEReader_new;
                     vstream = FcmStreamReader_new pk;
                     nbatches = (slice_size dest1 - slice_offset dest1) div BATCH_SIZE;
                     tailsize = (slice_size dest1 - slice_offset dest1) mod BATCH_SIZE;
                     batchend = slice_offset dest1 + nbatches * BATCH_SIZE
                 in (case decode_block_batches offset batchend tstream vstream stream3 dest1 of
                      Inl e \<Rightarrow> Inl e
                    | Inr (tstream', vstream', stream4, dest2) \<Rightarrow>
                        (case read_timestamps tailsize batchend tstream' stream4 (slice_ts dest2) of
                           Inl (e, ts') \<Rightarrow> Inl (e, dest2\<lparr>slice_ts := ts'\<rparr>)
                         | Inr (tstream'', stream5, ts') \<Rightarrow>
                             (case read_values tailsize batchend vstream' stream5 (slice_value dest2) of
                                Inl (e, value') \<Rightarrow>
                                  Inl (e, dest2\<lparr>slice_ts := ts', slice_value := value'\<rparr>)
                              | Inr (vstream'', stream6, value') \<Rightarrow>
                                  Inr (AKU_SUCCESS,
                                       dest2\<lparr>slice_ts := ts', slice_value := value',
                                             slice_offset := slice_offset dest2 + (batchend + tailsize)\<rparr>)))))))))"

section \<open>Chunks of three columns (encode\_chunk)\<close>

text \<open>\<open>write_to_stream<DeltaRLEWriter>(stream, writer)\<close> with the two loops the source passes
  to it. Neither loop looks at what \<open>put\<close> returns; \<open>commit\<close> is not looked at either; the
  length prefix is written through the handle without a test for null.\<close>

fun put_all ::
  "u64 list \<Rightarrow> DeltaRLEWriter \<Rightarrow> Base128StreamWriter \<Rightarrow> DeltaRLEWriter \<times> Base128StreamWriter" where
  "put_all [] wstream stream = (wstream, stream)"
| "put_all (x # xs) wstream stream =
     (case DeltaRLEWriter_put x wstream stream of (ok, wstream', stream') \<Rightarrow> put_all xs wstream' stream')"

fun put_all_minmax ::
  "u64 list \<Rightarrow> u64 \<Rightarrow> u64 \<Rightarrow> DeltaRLEWriter \<Rightarrow> Base128StreamWriter
   \<Rightarrow> u64 \<times> u64 \<times> DeltaRLEWriter \<times> Base128StreamWriter" where
  "put_all_minmax [] mints maxts wstream stream = (mints, maxts, wstream, stream)"
| "put_all_minmax (ts # rest) mints maxts wstream stream =
     (case DeltaRLEWriter_put ts wstream stream of
        (ok, wstream', stream') \<Rightarrow> put_all_minmax rest (min mints ts) (max maxts ts) wstream' stream')"

definition finish_stream ::
  "nat option \<Rightarrow> DeltaRLEWriter \<Rightarrow> Base128StreamWriter \<Rightarrow> fault + Base128StreamWriter" where
  "finish_stream length_prefix wstream stream =
     (case DeltaRLEWriter_commit wstream stream of
        (ok, wstream', stream') \<Rightarrow>
          (case length_prefix of
             None \<Rightarrow> Inl NullDeref
           | Some p \<Rightarrow>
               Inr (stream'\<lparr>buf := store_bytes p
                      (le_bytes 4 (of_nat (DeltaRLEWriter_size wstream' stream') :: u32)) (buf stream')\<rparr>)))"

text \<open>\<open>encode_chunk\<close>. \<open>ChunkWriter\<close> is not among the sources: the memory its \<open>allocate()\<close>
  hands out is the parameter \<open>available_space\<close>, its \<open>commit\<close> the parameter \<open>writer_commit\<close>;
  \<open>AKU_MIN_TIMESTAMP\<close> and \<open>AKU_MAX_TIMESTAMP\<close> are parameters as well. The stream ends
  \<open>2 * sizeof(uint32_t)\<close> bytes before the end of the memory. Nothing in the \<open>try\<close> block throws
  (the writers return false instead), so the \<open>catch\<close> branch is never taken. The result is the
  status with the three out-parameters and the stream.\<close>

definition encode_chunk ::
  "u64 \<Rightarrow> u64 \<Rightarrow> predictor_kind \<Rightarrow> u8 list \<Rightarrow> (nat \<Rightarrow> aku_Status) \<Rightarrow> UncompressedChunk
   \<Rightarrow> fault + (aku_Status \<times> u32 \<times> u64 \<times> u64 \<times> Base128StreamWriter)" where
  "encode_chunk aku_min_timestamp aku_max_timestamp pk available_space writer_commit data =
     (case allocate 4 \<lparr>buf = take (length available_space - 2 * 4) available_space, pos = 0\<rparr> of
        (prefix1, stream1) \<Rightarrow>
     (case put_all (paramids data) (DeltaRLEWriter_new stream1) stream1 of (wstream1, stream2) \<Rightarrow>
     (case finish_stream prefix1 wstream1 stream2 of Inl e \<Rightarrow> Inl e | Inr stream3 \<Rightarrow>
     (case allocate 4 stream3 of (prefix2, stream4) \<Rightarrow>
     (case put_all_minmax (timestamps data) aku_max_timestamp aku_min_timestamp
             (DeltaRLEWriter_new stream4) stream4 of (ts_begin, ts_end, wstream2, stream5) \<Rightarrow>
     (case finish_stream prefix2 wstream2 stream5 of Inl e \<Rightarrow> Inl e | Inr stream6 \<Rightarrow>
     (case allocate 4 stream6 of (ncolumns, stream7) \<Rightarrow>
     (case ncolumns of None \<Rightarrow> Inl NullDeref | Some pn \<Rightarrow>
     (case allocate 4 (stream7\<lparr>buf := store_bytes pn (le_bytes 4 (1 :: u32)) (buf stream7)\<rparr>) of
        (doubles_stream_size, stream8) \<Rightarrow>
     (case compress_doubles pk (values_col data) stream8 of (n, stream9) \<Rightarrow>
     (case doubles_stream_size of None \<Rightarrow> Inl NullDeref | Some pd \<Rightarrow>
        Inr (writer_commit
               (stream_size (stream9\<lparr>buf := store_bytes pd (le_bytes 4 (of_nat n :: u32)) (buf stream9)\<rparr>)),
             (of_nat (length (paramids data)) :: u32), ts_begin, ts_end,
             stream9\<lparr>buf := store_bytes pd (le_bytes 4 (of_nat n :: u32)) (buf stream9)\<rparr>))))))))))))"

section \<open>The block writer (V2::DataBlockWriter)\<close>

text \<open>\<open>CHUNK_SIZE\<close> and \<open>CHUNK_MASK\<close> are constants of \<open>compression.h\<close>. Modelled from the spec:
  \<open>CHUNK_SIZE = 16\<close>, and the scratch index is \<open>write_index & (CHUNK_SIZE - 1)\<close>.\<close>

definition CHUNK_SIZE :: nat where
  "CHUNK_SIZE = 16"

definition CHUNK_MASK :: nat where
  "CHUNK_MASK = CHUNK_SIZE - 1"

text \<open>The members. \<open>pmain_size\<close> and \<open>ptail_size\<close> are pointers to \<open>uint16_t\<close> inside the buffer:
  the offsets, in bytes, of what they point to. The two streams share \<open>stream\<close>. What the
  scratch arrays hold before they are written does not matter; they start as zeroes.\<close>

record DataBlockWriter =
  stream :: Base128StreamWriter
  ts_stream :: DeltaRLEWriter
  val_stream :: FcmStreamWriter
  write_index :: nat
  ts_writebuf :: "u64 list"
  val_writebuf :: "double list"
  pmain_size :: nat
  ptail_size :: nat

definition DataBlockWriter_new ::
  "u16 \<Rightarrow> predictor_kind \<Rightarrow> u64 \<Rightarrow> u8 list \<Rightarrow> fault + DataBlockWriter" where
  "DataBlockWriter_new akumuli_version pk series buffer =
     (case put_raw_u16 akumuli_version \<lparr>buf = buffer, pos = 0\<rparr> of (success, stream1) \<Rightarrow>
     (case allocate 2 stream1 of (pmain, stream2) \<Rightarrow>
     (case allocate 2 stream2 of (ptail, stream3) \<Rightarrow>
     (case put_raw_u64 series stream3 of (ok, stream4) \<Rightarrow>
     (case pmain of None \<Rightarrow> Inl (Panic ''Buffer is too small'') | Some pm \<Rightarrow>
     (case ptail of None \<Rightarrow> Inl (Panic ''Buffer is too small'') | Some pt \<Rightarrow>
        if \<not> (ok \<and> success) then Inl (Panic ''Buffer is too small'')
        else Inr \<lparr>stream = stream4, ts_stream = DeltaRLEWriter_new \<lparr>buf = buffer, pos = 0\<rparr>,
                  val_stream = FcmStreamWriter_new pk, write_index = 0,
                  ts_writebuf = replicate CHUNK_SIZE 0, val_writebuf = replicate CHUNK_SIZE 0,
                  pmain_size = pm, ptail_size = pt\<rparr>))))))"

definition room_for_chunk :: "DataBlockWriter \<Rightarrow> bool" where
  "room_for_chunk w =
     (let MARGIN = 10 * 16 + 9 * 16; free_space = space_left (stream w)
      in if free_space < MARGIN then False else True)"

text \<open>\<open>*ptail_size_ += 1\<close> on the \<open>uint16_t\<close> at that offset of the buffer.\<close>

definition incr_u16_at :: "nat \<Rightarrow> u8 list \<Rightarrow> u8 list" where
  "incr_u16_at p b = store_bytes p (le_bytes 2 ((from_le (load_bytes p 2 b) :: u16) + 1)) b"

text \<open>\<open>put\<close>. An \<open>assert\<close> ends the call when it fails unless the code is compiled with
  \<open>NDEBUG\<close>, the parameter \<open>ndebug\<close>. \<open>pmain_size_ += CHUNK_SIZE\<close> is arithmetic on the
  pointer: it moves it by \<open>CHUNK_SIZE\<close> elements of two bytes.\<close>

definition DataBlockWriter_put ::
  "bool \<Rightarrow> u64 \<Rightarrow> double \<Rightarrow> DataBlockWriter \<Rightarrow> fault + (aku_Status \<times> DataBlockWriter)" where
  "DataBlockWriter_put ndebug ts v w =
     (if room_for_chunk w then
        (let w1 = w\<lparr>ts_writebuf := (ts_writebuf w)[write_index w AND CHUNK_MASK := ts],
                    val_writebuf := (val_writebuf w)[write_index w AND CHUNK_MASK := v],
                    write_index := write_index w + 1\<rparr>
         in if write_index w1 AND CHUNK_MASK = 0 then
              (case DeltaRLEWriter_tput (take CHUNK_SIZE (ts_writebuf w1)) (ts_stream w1) (stream w1) of
                 (True, tstream', stream') \<Rightarrow>
                   (case FcmStreamWriter_tput (take CHUNK_SIZE (val_writebuf w1)) (val_stream w1) stream' of
                      (True, vstream', stream'') \<Rightarrow>
                        Inr (AKU_SUCCESS,
                             w1\<lparr>stream := stream'', ts_stream := tstream', val_stream := vstream',
                                pmain_size := pmain_size w1 + CHUNK_SIZE * 2\<rparr>)
                    | (False, vstream', stream'') \<Rightarrow>
                        if ndebug then
                          Inr (AKU_EOVERFLOW,
                               w1\<lparr>stream := stream'', ts_stream := tstream', val_stream := vstream'\<rparr>)
                        else Inl AssertFailed)
               | (False, tstream', stream') \<Rightarrow>
                   if ndebug then Inr (AKU_EOVERFLOW, w1\<lparr>stream := stream', ts_stream := tstream'\<rparr>)
                   else Inl AssertFailed)
            else Inr (AKU_SUCCESS, w1))
      else if \<not> ndebug \<and> write_index w AND CHUNK_MASK \<noteq> 0 then Inl AssertFailed
      else
        (let w1 = w\<lparr>write_index := write_index w + 1\<rparr> in
         case put_raw_u64 ts (stream w1) of
           (True, stream1) \<Rightarrow>
             (case put_raw_u64 v stream1 of
                (True, stream2) \<Rightarrow>
                  Inr (AKU_SUCCESS,
                       w1\<lparr>stream := stream2\<lparr>buf := incr_u16_at (ptail_size w1) (buf stream2)\<rparr>\<rparr>)
              | (False, stream2) \<Rightarrow> Inr (AKU_EOVERFLOW, w1\<lparr>stream := stream2\<rparr>))
         | (False, stream1) \<Rightarrow> Inr (AKU_EOVERFLOW, w1\<lparr>stream := stream1\<rparr>)))"

text \<open>\<open>close()\<close> has an empty body.\<close>

definition DataBlockWriter_close :: "DataBlockWriter \<Rightarrow> DataBlockWriter" where
  "DataBlockWriter_close w = w"

text \<open>A sequence of \<open>put\<close> calls: the statuses returned, in order, and the writer at the end.\<close>

fun put_many ::
  "bool \<Rightarrow> (u64 \<times> double) list \<Rightarrow> DataBlockWriter \<Rightarrow> fault + (aku_Status list \<times> DataBlockWriter)" where
  "put_many ndebug [] w = Inr ([], w)"
| "put_many ndebug ((ts, v) # rest) w =
     (case DataBlockWriter_put ndebug ts v w of
        Inl e \<Rightarrow> Inl e
      | Inr (st, w') \<Rightarrow>
          (case put_many ndebug rest w' of
             Inl e \<Rightarrow> Inl e
           | Inr (sts, w'') \<Rightarrow> Inr (st # sts, w'')))"

text \<open>A writer made over a buffer and a sequence of \<open>put\<close> calls on it.\<close>

definition block_run ::
  "bool \<Rightarrow> u16 \<Rightarrow> predictor_kind \<Rightarrow> u64 \<Rightarrow> u8 list \<Rightarrow> (u64 \<times> double) list
   \<Rightarrow> fault + (aku_Status list \<times> DataBlockWriter)" where
  "block_run ndebug akumuli_version pk series buffer samples =
     (case DataBlockWriter_new akumuli_version pk series buffer of
        Inl e \<Rightarrow> Inl e
      | Inr w \<Rightarrow> put_many ndebug samples w)"

text \<open>The fields of the block header, as section 6 of the specification lays them out:
  \<open>main_size\<close> at offset 2 and \<open>tail_size\<close> at offset 4 of the buffer.\<close>

definition header_main_size :: "u8 list \<Rightarrow> u16" where
  "header_main_size b = from_le (load_bytes 2 2 b)"

definition header_tail_size :: "u8 list \<Rightarrow> u16" where
  "header_tail_size b = from_le (load_bytes 4 2 b)"

section \<open>The encoded forms\<close>

text \<open>The byte layouts of section 6 of the specification, as functions of the data. They say
  what "the data fits" means (the encoded form is no longer than the space that is left) and
  what the writers are proved to produce.\<close>

text \<open>The stream after \<open>bs\<close> has been written at the cursor.\<close>

definition append_bytes :: "u8 list \<Rightarrow> Base128StreamWriter \<Rightarrow> Base128StreamWriter" where
  "append_bytes bs w = w\<lparr>buf := store_bytes (pos w) bs (buf w), pos := pos w + length bs\<rparr>"

text \<open>A residual under a flag: \<open>(flag & 7) + 1\<close> bytes, lowest first, of the residual shifted
  down when bit 3 of the flag says that its high-order bytes are stored.\<close>

definition flag_nbytes :: "u8 \<Rightarrow> nat" where
  "flag_nbytes flag = unat (flag AND 7) + 1"

definition flag_shift :: "u8 \<Rightarrow> nat" where
  "flag_shift flag = (64 - flag_nbytes flag * 8) * unat (drop_bit 3 flag)"

definition value_bytes :: "u64 \<Rightarrow> u8 \<Rightarrow> u8 list" where
  "value_bytes diff flag = le_bytes (flag_nbytes flag) (drop_bit (flag_shift flag) diff)"

text \<open>A group of two samples: the control byte, then the residual of each.\<close>

definition pair_bytes :: "u64 \<Rightarrow> u8 \<Rightarrow> u64 \<Rightarrow> u8 \<Rightarrow> u8 list" where
  "pair_bytes diff_a flag_a diff_b flag_b =
     (push_bit 4 flag_a OR flag_b) # value_bytes diff_a flag_a @ value_bytes diff_b flag_b"

text \<open>A sequence of doubles from a predictor state on: the groups of two, and for an odd
  count a last group whose second sample is the zero residual under flag 0.\<close>

fun fcm_bytes :: "PredictorT \<Rightarrow> double list \<Rightarrow> u8 list" where
  "fcm_bytes pr [] = []"
| "fcm_bytes pr [a] =
     (let da = a XOR predict_next pr in pair_bytes da (flag_of_diff da) 0 0)"
| "fcm_bytes pr (a # b # rest) =
     (let da = a XOR predict_next pr; pr1 = update a pr;
          db = b XOR predict_next pr1; pr2 = update b pr1
      in pair_bytes da (flag_of_diff da) db (flag_of_diff db) @ fcm_bytes pr2 rest)"

text \<open>What every write to a stream keeps: the length of the buffer and the bytes before the
  cursor; the cursor only moves forward and stays inside the buffer.\<close>

definition stream_frame :: "Base128StreamWriter \<Rightarrow> Base128StreamWriter \<Rightarrow> bool" where
  "stream_frame w w' \<longleftrightarrow>
     length (buf w') = length (buf w) \<and> pos w \<le> pos w' \<and> pos w' \<le> length (buf w')
     \<and> take (pos w) (buf w') = take (pos w) (buf w)"

text \<open>The invariant of the block writer that bounds the tail: the cursor is behind the header,
  \<open>ptail_size\<close> points to the tail field, and once tail samples have been written, 16 bytes for
  each of them plus the space that is left make at most 303 bytes, one less than the margin.\<close>

definition tail_inv :: "DataBlockWriter \<Rightarrow> bool" where
  "tail_inv w \<longleftrightarrow>
     14 \<le> pos (stream w) \<and> pos (stream w) \<le> length (buf (stream w)) \<and> ptail_size w = 4
     \<and> (header_tail_size (buf (stream w)) = 0
        \<or> 16 * unat (header_tail_size (buf (stream w))) + space_left (stream w) \<le> 303)"

text \<open>What flushing the open run writes: its length and its delta, or nothing when no run is
  open.\<close>

definition flush_bytes :: "u64 \<Rightarrow> u64 \<Rightarrow> u8 list" where
  "flush_bytes run reps = (if reps \<noteq> 0 then base128 reps @ base128 run else [])"

text \<open>A batch of timestamps from a writer state on (the delta of the open run, its length and
  the previous timestamp): every run but the last is written when the next delta differs, the
  last one when the writer is flushed.\<close>

fun rle_bytes :: "u64 \<Rightarrow> u64 \<Rightarrow> u64 \<Rightarrow> u64 list \<Rightarrow> u8 list" where
  "rle_bytes run reps prev [] = flush_bytes run reps"
| "rle_bytes run reps prev (v # vs) =
     (if v - prev \<noteq> run then flush_bytes run reps @ rle_bytes (v - prev) 1 v vs
      else rle_bytes run (reps + 1) v vs)"

text \<open>The delta of the open run after a batch.\<close>

fun rle_run :: "u64 \<Rightarrow> u64 \<Rightarrow> u64 list \<Rightarrow> u64" where
  "rle_run run prev [] = run"
| "rle_run run prev (v # vs) = rle_run (v - prev) v vs"

text \<open>The predictor after a sequence of values.\<close>

definition predictor_after :: "PredictorT \<Rightarrow> double list \<Rightarrow> PredictorT" where
  "predictor_after pr vs = foldl (\<lambda>p v. update v p) pr vs"

text \<open>The main section of a block: \<open>nb\<close> times a batch of \<open>BATCH_SIZE\<close> timestamps and a batch of
  \<open>BATCH_SIZE\<close> values.\<close>

fun batches_bytes :: "nat \<Rightarrow> u64 \<Rightarrow> u64 \<Rightarrow> PredictorT \<Rightarrow> u64 list \<Rightarrow> double list \<Rightarrow> u8 list" where
  "batches_bytes 0 run prev pr tss vs = []"
| "batches_bytes (Suc nb) run prev pr tss vs =
     rle_bytes run 0 prev (take BATCH_SIZE tss) @ fcm_bytes pr (take BATCH_SIZE vs)
     @ batches_bytes nb (rle_run run prev (take BATCH_SIZE tss)) (last (prev # take BATCH_SIZE tss))
         (predictor_after pr (take BATCH_SIZE vs)) (drop BATCH_SIZE tss) (drop BATCH_SIZE vs)"

text \<open>What \<open>encode_block\<close> writes behind the header for the timestamps \<open>tss\<close> and the values
  \<open>vs\<close>: the full batches, then the timestamps and the values that are left over.\<close>

definition block_bytes :: "predictor_kind \<Rightarrow> u64 list \<Rightarrow> double list \<Rightarrow> u8 list" where
  "block_bytes pk tss vs =
     (let nb = length tss div BATCH_SIZE; full = nb * BATCH_SIZE
      in batches_bytes nb 0 0 (PredictorT_new pk PREDICTOR_N) tss vs
         @ rle_bytes (rle_run 0 0 (take full tss)) 0 (last (0 # take full tss)) (drop full tss)
         @ fcm_bytes (predictor_after (PredictorT_new pk PREDICTOR_N) (take full vs)) (drop full vs))"

text \<open>The part of an array that a slice covers, from \<open>offset\<close> up to \<open>size\<close>.\<close>

definition slice_range :: "SeriesSlice \<Rightarrow> 'a list \<Rightarrow> 'a list" where
  "slice_range s xs = drop (slice_offset s) (take (slice_size s) xs)"

text \<open>An array with the elements from index \<open>at\<close> on replaced by \<open>xs\<close>.\<close>

definition overwrite :: "nat \<Rightarrow> 'a list \<Rightarrow> 'a list \<Rightarrow> 'a list" where
  "overwrite at xs d = take at d @ xs @ drop (at + length xs) d"

text \<open>The timestamps of a run: \<open>n\<close> times the delta \<open>run\<close> added to what came before.\<close>

fun run_values :: "u64 \<Rightarrow> u64 \<Rightarrow> nat \<Rightarrow> u64 list" where
  "run_values p run 0 = []"
| "run_values p run (Suc n) = (p + run) # run_values (p + run) run n"

section \<open>Test vectors\<close>

text \<open>A stream over a zero-filled buffer of \<open>n\<close> bytes, the cursor at its beginning.\<close>

definition empty_stream :: "nat \<Rightarrow> Base128StreamWriter" where
  "empty_stream n = \<lparr>buf = replicate n 0, pos = 0\<rparr>"

text \<open>The irregular values of scenario (e): +0.0, -0.0, a NaN with a payload, +inf, -inf, the
  smallest denormal, and pi.\<close>

definition irregular_doubles :: "double list" where
  "irregular_doubles =
     [0, 0x8000000000000000, 0x7FF8000000000001, 0x7FF0000000000000, 0xFFF0000000000000,
      1, 0x400921FB54442D18]"

text \<open>The value writer after one sample (pi) has been put, and the stream after two zero
  samples have been written as one batch.\<close>

definition one_sample_writer :: FcmStreamWriter where
  "one_sample_writer =
     fst (snd (FcmStreamWriter_put 0x400921FB54442D18 (FcmStreamWriter_new UseFcm) (empty_stream 32)))"

definition two_zeros_stream :: Base128StreamWriter where
  "two_zeros_stream =
     snd (snd (FcmStreamWriter_tput [0, 0] (FcmStreamWriter_new UseFcm) (empty_stream 32)))"

text \<open>Scenario (c), an exact chunk: sixteen samples, timestamps 1000 to 1015, every value 1.0,
  put into a block writer over a zero-filled buffer of 1024 bytes (version 1, series 1).\<close>

definition exact_chunk :: "(u64 \<times> double) list" where
  "exact_chunk = map (\<lambda>i. (1000 + of_nat i, 0x3FF0000000000000)) [0..<16]"

definition exact_chunk_run :: "bool \<Rightarrow> fault + (aku_Status list \<times> DataBlockWriter)" where
  "exact_chunk_run ndebug = block_run ndebug 1 UseFcm 1 (replicate 1024 0) exact_chunk"

text \<open>Seventeen samples, to be put into a block writer over a zero-filled buffer of 317 bytes:
  after the header 303 bytes are left, fewer than the margin of a chunk.\<close>

definition seventeen :: "(u64 \<times> double) list" where
  "seventeen = map (\<lambda>i. (1000 + of_nat i, 0x3FF0000000000000)) [0..<17]"

text \<open>A slice of two samples whose second value (pi) needs eight residual bytes, and
  destinations of two elements.\<close>

definition cut_slice :: SeriesSlice where
  "cut_slice = \<lparr>slice_id = 42, slice_ts = [1000, 1001], slice_value = [1, 0x400921FB54442D18],
      slice_size = 2, slice_offset = 0\<rparr>"

definition blank_slice :: "nat \<Rightarrow> SeriesSlice" where
  "blank_slice n = \<lparr>slice_id = 0, slice_ts = replicate n 0, slice_value = replicate n 0,
      slice_size = n, slice_offset = 0\<rparr>"

text \<open>What a run of puts leaves behind: the statuses, and of the closed writer the cursor, the
  two counts of the header, and where \<open>pmain_size\<close> points.\<close>

definition block_report :: "DataBlockWriter \<Rightarrow> nat \<times> u16 \<times> u16 \<times> nat" where
  "block_report w =
     (pos (stream w), header_main_size (buf (stream w)), header_tail_size (buf (stream w)),
      pmain_size w)"

definition run_report ::
  "fault + (aku_Status list \<times> DataBlockWriter)
   \<Rightarrow> fault + (aku_Status list \<times> nat \<times> u16 \<times> u16 \<times> nat)" where
  "run_report r =
     (case r of
        Inl e \<Rightarrow> Inl e
      | Inr (sts, w) \<Rightarrow> Inr (sts, block_report (DataBlockWriter_close w)))"

text \<open>A chunk of two rows whose timestamps are not in order.\<close>

definition two_rows :: UncompressedChunk where
  "two_rows = \<lparr>paramids = [7, 7], timestamps = [30, 10], values_col = [0, 0]\<rparr>"

text \<open>A slice of seventeen samples, a full batch and a tail of one: the timestamps go up by
  ten and the last one by seven, the values are the counter of the sample as a bit pattern,
  the last one pi.\<close>

definition ramp_slice :: SeriesSlice where
  "ramp_slice =
     \<lparr>slice_id = 42,
      slice_ts = map (\<lambda>i. 1000 + 10 * of_nat i) [0..<16] @ [1157],
      slice_value = map of_nat [0..<16] @ [0x400921FB54442D18],
      slice_size = 17, slice_offset = 0\<rparr>"

section \<open>Properties of the chunk utilities\<close>

lemma stable_insert_insort_key:
  "stable_insert (\<lambda>a b. (k a :: 'b :: linorder) < k b) x ys = insort_key k x ys"
  by (induction ys) (auto simp: not_less)

lemma stable_sort_sort_key:
  "stable_sort (\<lambda>a b. (k a :: 'b :: linorder) < k b) xs = sort_key k xs"
  by (induction xs) (simp_all add: stable_sort_def stable_insert_insort_key)

lemma push_back_all_in_range:
  "\<forall>ix \<in> set index. ix < length (paramids header) \<and> ix < length (timestamps header) \<and> ix < length (values_col header)
   \<Longrightarrow> push_back_all header index out =
       Inr (out\<lparr>paramids := paramids out @ map ((!) (paramids header)) index,
                timestamps := timestamps out @ map ((!) (timestamps header)) index,
                values_col := values_col out @ map ((!) (values_col header)) index\<rparr>)"
  by (induction index arbitrary: out) simp_all

lemma filter_positions_order:
  assumes "sorted_wrt R (filter P xs)" "p < q" "q < length xs" "P (xs ! p)" "P (xs ! q)"
  shows "R (xs ! p) (xs ! q)"
proof -
  have split: "xs = take q xs @ xs ! q # drop (Suc q) xs"
    using assms(3) by (rule id_take_nth_drop)
  have "xs ! p \<in> set (take q xs)"
    using assms(2,3) by (auto simp: in_set_conv_nth intro!: exI[of _ p])
  then have mem: "xs ! p \<in> set (filter P (take q xs))"
    using assms(4) by simp
  have "filter P xs = filter P (take q xs) @ xs ! q # filter P (drop (Suc q) xs)"
    using assms(5) by (subst split) simp
  then show ?thesis using assms(1) mem by (auto simp: sorted_wrt_append)
qed

lemma stable_index:
  fixes key :: "nat \<Rightarrow> 'k :: linorder" and n :: nat
  defines "index \<equiv> stable_sort (\<lambda>l r. key l < key r) [0..<n]"
  shows "set index = {0..<n}" and "distinct index" and "length index = n"
    and "sorted (map key index)"
    and "p < q \<Longrightarrow> q < n \<Longrightarrow> key (index ! p) = key (index ! q) \<Longrightarrow> index ! p < index ! q"
proof -
  have ix: "index = sort_key key [0..<n]"
    by (simp add: index_def stable_sort_sort_key)
  show "set index = {0..<n}" by (simp add: ix)
  show "distinct index" by (simp add: ix)
  show len: "length index = n" by (simp add: ix)
  show "sorted (map key index)" by (simp add: ix)
  assume pq: "p < q" "q < n" "key (index ! p) = key (index ! q)"
  have "filter (\<lambda>y. key y = key (index ! q)) index = filter (\<lambda>y. key y = key (index ! q)) [0..<n]"
    unfolding ix by (rule sort_key_stable)
  then have "sorted_wrt (<) (filter (\<lambda>y. key y = key (index ! q)) index)"
    by (simp add: sorted_wrt_filter)
  then show "index ! p < index ! q"
    using pq len filter_positions_order [of "(<)" "\<lambda>y. key y = key (index ! q)" index p q] by simp
qed

lemma reorder_in_range:
  assumes "length (paramids header) = length (timestamps header)"
    and "length (values_col header) = length (timestamps header)"
    and "set index = {0..<length (timestamps header)}"
  shows "push_back_all header index out =
       Inr (out\<lparr>paramids := paramids out @ map ((!) (paramids header)) index,
                timestamps := timestamps out @ map ((!) (timestamps header)) index,
                values_col := values_col out @ map ((!) (values_col header)) index\<rparr>)"
  using assms by (intro push_back_all_in_range) auto

text \<open>C7: with three columns of one length, \<open>convert_from_chunk_order\<close> appends the rows
  permuted by an index vector that is a stable permutation by timestamp, and
  \<open>convert_from_time_order\<close> one that is a stable permutation by paramid: rows with equal
  keys keep their input order.\<close>

theorem convert_stable:
  assumes "length (paramids header) = length (timestamps header)"
    and "length (values_col header) = length (timestamps header)"
  shows "(\<exists>index. stable_perm (timestamps header) index
           \<and> convert_from_chunk_order header out =
               Inr (True, out\<lparr>paramids := paramids out @ map ((!) (paramids header)) index,
                   timestamps := timestamps out @ map ((!) (timestamps header)) index,
                   values_col := values_col out @ map ((!) (values_col header)) index\<rparr>))
       \<and> (\<exists>index. stable_perm (paramids header) index
           \<and> convert_from_time_order header out =
               Inr (True, out\<lparr>paramids := paramids out @ map ((!) (paramids header)) index,
                   timestamps := timestamps out @ map ((!) (timestamps header)) index,
                   values_col := values_col out @ map ((!) (values_col header)) index\<rparr>))"
proof -
  let ?n = "length (timestamps header)"
  let ?it = "stable_sort (\<lambda>l r. timestamps header ! l < timestamps header ! r) [0..<?n]"
  let ?ip = "stable_sort (\<lambda>l r. paramids header ! l < paramids header ! r) [0..<?n]"
  have "stable_perm (timestamps header) ?it"
    unfolding stable_perm_def
    using stable_index [where key = "(!) (timestamps header)" and n = ?n] by simp
  moreover have "convert_from_chunk_order header out =
               Inr (True, out\<lparr>paramids := paramids out @ map ((!) (paramids header)) ?it,
                   timestamps := timestamps out @ map ((!) (timestamps header)) ?it,
                   values_col := values_col out @ map ((!) (values_col header)) ?it\<rparr>)"
    using assms stable_index(1) [where key = "(!) (timestamps header)" and n = ?n]
    by (simp add: convert_from_chunk_order_def reorder_chunk_header_def reorder_in_range)
  moreover have "stable_perm (paramids header) ?ip"
    unfolding stable_perm_def
    using assms stable_index [where key = "(!) (paramids header)" and n = ?n] by simp
  moreover have "convert_from_time_order header out =
               Inr (True, out\<lparr>paramids := paramids out @ map ((!) (paramids header)) ?ip,
                   timestamps := timestamps out @ map ((!) (timestamps header)) ?ip,
                   values_col := values_col out @ map ((!) (values_col header)) ?ip\<rparr>)"
    using assms stable_index(1) [where key = "(!) (paramids header)" and n = ?n]
    by (simp add: convert_from_time_order_def reorder_chunk_header_def reorder_in_range)
  ultimately show ?thesis by blast
qed

theorem convert_stable_witness:
  "length (paramids \<lparr>paramids = [2, 1, 2, 1], timestamps = [10, 10, 11, 11], values_col = [5, 6, 7, 8]\<rparr>)
     = length (timestamps \<lparr>paramids = [2, 1, 2, 1], timestamps = [10, 10, 11, 11], values_col = [5, 6, 7, 8]\<rparr>)
   \<and> length (values_col \<lparr>paramids = [2, 1, 2, 1], timestamps = [10, 10, 11, 11], values_col = [5, 6, 7, 8]\<rparr>)
     = length (timestamps \<lparr>paramids = [2, 1, 2, 1], timestamps = [10, 10, 11, 11], values_col = [5, 6, 7, 8]\<rparr>)
   \<and> (\<exists>index. stable_perm [10, 10, 11, 11] index
         \<and> convert_from_chunk_order
              \<lparr>paramids = [2, 1, 2, 1], timestamps = [10, 10, 11, 11], values_col = [5, 6, 7, 8]\<rparr>
              \<lparr>paramids = [], timestamps = [], values_col = []\<rparr>
            = Inr (True, \<lparr>paramids = map ((!) [2, 1, 2, 1]) index,
                           timestamps = map ((!) [10, 10, 11, 11]) index,
                           values_col = map ((!) [5, 6, 7, 8]) index\<rparr>))
   \<and> (\<exists>index. stable_perm [2, 1, 2, 1] index
         \<and> convert_from_time_order
              \<lparr>paramids = [2, 1, 2, 1], timestamps = [10, 10, 11, 11], values_col = [5, 6, 7, 8]\<rparr>
              \<lparr>paramids = [], timestamps = [], values_col = []\<rparr>
            = Inr (True, \<lparr>paramids = map ((!) [2, 1, 2, 1]) index,
                           timestamps = map ((!) [10, 10, 11, 11]) index,
                           values_col = map ((!) [5, 6, 7, 8]) index\<rparr>))"
  using convert_stable [of "\<lparr>paramids = [2, 1, 2, 1], timestamps = [10, 10, 11, 11], values_col = [5, 6, 7, 8]\<rparr>"
      "\<lparr>paramids = [], timestamps = [], values_col = []\<rparr>"]
  by simp

text \<open>C10: when the three columns do not all have the same length, both conversions return
  false and leave the output chunk as it was.\<close>

theorem convert_length_mismatch:
  assumes "\<not> (length (paramids header) = length (timestamps header)
              \<and> length (values_col header) = length (timestamps header))"
  shows "convert_from_chunk_order header out = Inr (False, out)
       \<and> convert_from_time_order header out = Inr (False, out)"
  using assms
  by (auto simp: convert_from_chunk_order_def convert_from_time_order_def reorder_chunk_header_def)

theorem convert_length_mismatch_witness:
  "\<not> (length (paramids \<lparr>paramids = [1, 2], timestamps = [10], values_col = [0]\<rparr>)
        = length (timestamps \<lparr>paramids = [1, 2], timestamps = [10], values_col = [0]\<rparr>)
      \<and> length (values_col \<lparr>paramids = [1, 2], timestamps = [10], values_col = [0]\<rparr>)
        = length (timestamps \<lparr>paramids = [1, 2], timestamps = [10], values_col = [0]\<rparr>))
   \<and> convert_from_chunk_order \<lparr>paramids = [1, 2], timestamps = [10], values_col = [0]\<rparr>
        \<lparr>paramids = [7], timestamps = [8], values_col = [9]\<rparr>
       = Inr (False, \<lparr>paramids = [7], timestamps = [8], values_col = [9]\<rparr>)
   \<and> convert_from_time_order \<lparr>paramids = [1, 2], timestamps = [10], values_col = [0]\<rparr>
        \<lparr>paramids = [7], timestamps = [8], values_col = [9]\<rparr>
       = Inr (False, \<lparr>paramids = [7], timestamps = [8], values_col = [9]\<rparr>)"
  using convert_length_mismatch [of "\<lparr>paramids = [1, 2], timestamps = [10], values_col = [0]\<rparr>"
      "\<lparr>paramids = [7], timestamps = [8], values_col = [9]\<rparr>"]
  by simp

section \<open>Properties of the byte stream and of encode\_value\<close>

subsection \<open>Writing bytes\<close>

lemma length_le_bytes [simp]: "length (le_bytes n v) = n"
  by (simp add: le_bytes_def)

lemma length_store_bytes [simp]:
  "off + length bs \<le> length b \<Longrightarrow> length (store_bytes off bs b) = length b"
  by (simp add: store_bytes_def)

lemma put_bytes_eq:
  "put_bytes bs w = (if length bs \<le> space_left w then (True, append_bytes bs w) else (False, w))"
  by (simp add: put_bytes_def append_bytes_def not_less)

lemma store_bytes_append:
  "store_bytes (off + length a) b (store_bytes off a xs) = store_bytes off (a @ b) xs"
  if "off + length a + length b \<le> length xs"
proof -
  from that show ?thesis by (simp add: store_bytes_def ac_simps)
qed

lemma append_bytes_append:
  assumes "pos w + length a + length b \<le> length (buf w)"
  shows "append_bytes b (append_bytes a w) = append_bytes (a @ b) w"
  using assms store_bytes_append [of "pos w" a b "buf w"]
  by (simp add: append_bytes_def add.assoc)

lemma pos_append_bytes [simp]: "pos (append_bytes bs w) = pos w + length bs"
  by (simp add: append_bytes_def)

lemma length_buf_append_bytes [simp]:
  "pos w + length bs \<le> length (buf w) \<Longrightarrow> length (buf (append_bytes bs w)) = length (buf w)"
  by (simp add: append_bytes_def)

lemma space_left_append_bytes:
  "pos w + length bs \<le> length (buf w) \<Longrightarrow> space_left (append_bytes bs w) = space_left w - length bs"
  by (simp add: space_left_def)

lemma fits_iff: "pos w \<le> length (buf w) \<Longrightarrow> n \<le> space_left w \<longleftrightarrow> pos w + n \<le> length (buf w)"
  by (auto simp: space_left_def)

text \<open>A chain of writes: the stream after a list of byte strings has been put one after the other.\<close>

lemma put_bytes_chain:
  assumes "pos w + length a + length b \<le> length (buf w)"
    and "g (append_bytes a w) = (True, append_bytes b (append_bytes a w))"
  shows "and_then (put_bytes a) g w = (True, append_bytes (a @ b) w)"
  using assms by (simp add: and_then_def put_bytes_eq space_left_def append_bytes_append)

lemma le_bytes_Suc: "le_bytes (Suc n) v = ucast v # le_bytes n (drop_bit 8 v)"
proof -
  have "[0..<Suc n] = 0 # map Suc [0..<n]"
    by (simp add: upt_conv_Cons map_Suc_upt del: upt_Suc)
  then show ?thesis
    by (simp add: le_bytes_def comp_def drop_bit_drop_bit add.commute del: upt_Suc)
qed

lemma le_bytes_0 [simp]: "le_bytes 0 v = []"
  by (simp add: le_bytes_def)

lemma mask_8: "(0xFF :: u64) = mask 8" by (simp add: mask_eq_exp_minus_1)
lemma mask_32: "(0xFFFFFFFF :: u64) = mask 32" by (simp add: mask_eq_exp_minus_1)

lemma ucast_and_FF: "(ucast ((d :: u64) AND 0xFF) :: u8) = ucast d"
  unfolding mask_8 by (rule bit_word_eqI) (auto simp: bit_simps)

lemma ucast_drop_and_F32:
  "k \<le> 24 \<Longrightarrow> (ucast (drop_bit k (ucast ((d :: u64) AND 0xFFFFFFFF) :: u32)) :: u8) = ucast (drop_bit k d)"
  unfolding mask_32 by (intro bit_word_eqI) (auto simp: bit_simps)

lemma le_bytes_4_ucast: "le_bytes 4 (ucast ((d :: u64) AND 0xFFFFFFFF) :: u32) = le_bytes 4 d"
  by (simp add: le_bytes_def upt_rec ucast_drop_and_F32 ucast_drop_and_F32 [where k = 0, simplified])

lemma le_bytes_numeral:
  "le_bytes (Suc 0) v = [ucast v]"
  "le_bytes 1 v = [ucast v]"
  "le_bytes 2 v = [ucast v, ucast (drop_bit 8 v)]"
  "le_bytes 3 v = [ucast v, ucast (drop_bit 8 v), ucast (drop_bit 16 v)]"
  by (simp_all add: le_bytes_def upt_rec)

lemma le_bytes_add: "le_bytes (m + n) v = le_bytes m v @ le_bytes n (drop_bit (8 * m) v)"
proof (induction m arbitrary: v)
  case 0
  show ?case by simp
next
  case (Suc m)
  show ?case by (simp add: le_bytes_Suc Suc drop_bit_drop_bit add.commute)
qed

lemma encode_case_4_eq:
  "pos w + 4 \<le> length (buf w) \<Longrightarrow> encode_case_4 d w = (True, append_bytes (le_bytes 4 d) w)"
  by (simp add: encode_case_4_def put_raw_u32_def put_bytes_eq le_bytes_4_ucast space_left_def)

lemma put_raw_u8_eq: "put_raw_u8 (ucast (d AND 0xFF)) = put_bytes [ucast (d :: u64)]"
  by (simp add: put_raw_u8_def ucast_and_FF)

lemma encode_case_5_eq:
  "pos w + 5 \<le> length (buf w) \<Longrightarrow> encode_case_5 d w = (True, append_bytes (le_bytes 5 d) w)"
  unfolding encode_case_5_def put_raw_u8_eq
  using put_bytes_chain [of w "[ucast d]" "le_bytes 4 (drop_bit 8 d)" "encode_case_4 (drop_bit 8 d)"]
  by (simp add: encode_case_4_eq le_bytes_Suc [of 4, simplified])

lemma encode_case_6_eq:
  "pos w + 6 \<le> length (buf w) \<Longrightarrow> encode_case_6 d w = (True, append_bytes (le_bytes 6 d) w)"
  unfolding encode_case_6_def put_raw_u8_eq
  using put_bytes_chain [of w "[ucast d]" "le_bytes 5 (drop_bit 8 d)" "encode_case_5 (drop_bit 8 d)"]
  by (simp add: encode_case_5_eq le_bytes_Suc [of 5, simplified])

lemma encode_case_7_eq:
  "pos w + 7 \<le> length (buf w) \<Longrightarrow> encode_case_7 d w = (True, append_bytes (le_bytes 7 d) w)"
  unfolding encode_case_7_def put_raw_u8_eq
  using put_bytes_chain [of w "[ucast d]" "le_bytes 6 (drop_bit 8 d)" "encode_case_6 (drop_bit 8 d)"]
  by (simp add: encode_case_6_eq le_bytes_Suc [of 6, simplified])

lemma encode_case_1_eq:
  "pos w + 1 \<le> length (buf w) \<Longrightarrow> encode_case_1 d w = (True, append_bytes (le_bytes 1 d) w)"
  by (simp add: encode_case_1_def put_raw_u8_eq put_bytes_eq space_left_def le_bytes_numeral)

lemma encode_case_2_eq:
  "pos w + 2 \<le> length (buf w) \<Longrightarrow> encode_case_2 d w = (True, append_bytes (le_bytes 2 d) w)"
  unfolding encode_case_2_def put_raw_u8_eq
  using put_bytes_chain [of w "[ucast d]" "le_bytes 1 (drop_bit 8 d)" "encode_case_1 (drop_bit 8 d)"]
  by (simp add: encode_case_1_eq le_bytes_numeral)

lemma encode_case_3_eq:
  "pos w + 3 \<le> length (buf w) \<Longrightarrow> encode_case_3 d w = (True, append_bytes (le_bytes 3 d) w)"
  unfolding encode_case_3_def put_raw_u8_eq
  using put_bytes_chain [of w "[ucast d]" "le_bytes 2 (drop_bit 8 d)" "encode_case_2 (drop_bit 8 d)"]
  by (simp add: encode_case_2_eq le_bytes_numeral)

lemma flag_nbytes_range: "1 \<le> flag_nbytes flag \<and> flag_nbytes flag \<le> 8"
proof -
  have "flag AND 7 \<le> 7" by (rule word_and_le1)
  then have "unat (flag AND 7) \<le> 7" by (simp add: word_le_nat_alt)
  then show ?thesis by (simp add: flag_nbytes_def)
qed

lemma length_value_bytes [simp]: "length (value_bytes diff flag) = flag_nbytes flag"
  by (simp add: value_bytes_def)

lemma encode_value_alt:
  "encode_value diff0 flag wstream =
     (let nbytes = flag_nbytes flag; diff = drop_bit (flag_shift flag) diff0
      in if nbytes = 8 then put_raw_u64 diff wstream
         else if nbytes = 7 then encode_case_7 diff wstream
         else if nbytes = 6 then encode_case_6 diff wstream
         else if nbytes = 5 then encode_case_5 diff wstream
         else if nbytes = 4 then encode_case_4 diff wstream
         else if nbytes = 3 then encode_case_3 diff wstream
         else if nbytes = 2 then encode_case_2 diff wstream
         else if nbytes = 1 then encode_case_1 diff wstream
         else (True, wstream))"
  unfolding encode_value_def flag_nbytes_def flag_shift_def Let_def by (rule refl)

lemma encode_value_eq:
  assumes "pos w + flag_nbytes flag \<le> length (buf w)"
  shows "encode_value diff flag w = (True, append_bytes (value_bytes diff flag) w)"
proof -
  let ?n = "flag_nbytes flag"
  let ?d = "drop_bit (flag_shift flag) diff"
  consider "?n = 1" | "?n = 2" | "?n = 3" | "?n = 4" | "?n = 5" | "?n = 6" | "?n = 7" | "?n = 8"
    using flag_nbytes_range [of flag] by arith
  then show ?thesis
  proof cases
    case 1 with assms show ?thesis
      using encode_case_1_eq [of w ?d] by (simp add: encode_value_alt value_bytes_def)
  next
    case 2 with assms show ?thesis
      using encode_case_2_eq [of w ?d] by (simp add: encode_value_alt value_bytes_def)
  next
    case 3 with assms show ?thesis
      using encode_case_3_eq [of w ?d] by (simp add: encode_value_alt value_bytes_def)
  next
    case 4 with assms show ?thesis
      using encode_case_4_eq [of w ?d] by (simp add: encode_value_alt value_bytes_def)
  next
    case 5 with assms show ?thesis
      using encode_case_5_eq [of w ?d] by (simp add: encode_value_alt value_bytes_def)
  next
    case 6 with assms show ?thesis
      using encode_case_6_eq [of w ?d] by (simp add: encode_value_alt value_bytes_def)
  next
    case 7 with assms show ?thesis
      using encode_case_7_eq [of w ?d] by (simp add: encode_value_alt value_bytes_def)
  next
    case 8 with assms show ?thesis
      by (simp add: encode_value_alt value_bytes_def put_raw_u64_def put_bytes_eq space_left_def)
  qed
qed

lemma read_bytes_append:
  "read_bytes (length a) (a @ r) = Inr (a, r)"
  by (simp add: read_bytes_def)

section \<open>Properties of decode\_value\<close>

subsection \<open>Reading a residual back\<close>

lemma read_raw_u8_Cons [simp]: "read_raw_u8 (b # r) = Inr (b, r)"
  by (simp add: read_raw_u8_def)

lemma read_raw_u8_Nil [simp]: "read_raw_u8 [] = Inl StreamOutOfBounds"
  by (simp add: read_raw_u8_def)

declare decode_value_loop.simps [simp del]

lemma take_bit_step:
  "take_bit (8 * i) (d :: u64) OR push_bit (i * 8) (ucast (ucast (drop_bit (8 * i) d) :: u8))
     = take_bit (8 * (i + 1)) d"
  by (rule bit_word_eqI) (auto simp: bit_simps)

lemma decode_value_loop_le_bytes:
  "i \<le> n \<Longrightarrow>
   decode_value_loop i n (take_bit (8 * i) d) (map (\<lambda>j. ucast (drop_bit (8 * j) d)) [i..<n] @ rest)
     = Inr (take_bit (8 * n) d, rest)"
proof (induction "n - i" arbitrary: i)
  case 0
  then show ?case by (simp add: decode_value_loop.simps [of i])
next
  case (Suc k)
  then have lt: "i < n" and k: "k = n - (i + 1)" and le: "i + 1 \<le> n" by simp_all
  have upt: "[i..<n] = i # [i + 1..<n]" using lt by (simp add: upt_conv_Cons)
  show ?case
    using Suc.hyps(1) [OF k le] lt
    by (subst decode_value_loop.simps) (simp add: upt take_bit_step del: upt_Suc)
qed

lemma decode_value_value_bytes:
  "decode_value (value_bytes diff flag @ rest) flag =
     Inr (push_bit (flag_shift flag) (take_bit (8 * flag_nbytes flag) (drop_bit (flag_shift flag) diff)), rest)"
proof -
  have alt: "decode_value r flag =
     (case decode_value_loop 0 (flag_nbytes flag) 0 r of
        Inl e \<Rightarrow> Inl e
      | Inr (diff, r') \<Rightarrow> Inr (push_bit (flag_shift flag) diff, r'))" for r
    unfolding decode_value_def flag_nbytes_def flag_shift_def Let_def by (rule refl)
  show ?thesis
    using decode_value_loop_le_bytes [of 0 "flag_nbytes flag" "drop_bit (flag_shift flag) diff" rest]
    by (simp add: alt value_bytes_def le_bytes_def)
qed

subsection \<open>Counting zero bits\<close>

lemma takeWhile_upt_less:
  "j < length (takeWhile P xs) \<Longrightarrow> P (xs ! j)"
  by (metis nth_mem set_takeWhileD takeWhile_nth)

lemma ctzl_zero_below: "i < ctzl x \<Longrightarrow> \<not> bit x i"
proof -
  assume a: "i < ctzl x"
  let ?t = "takeWhile (\<lambda>i. \<not> bit x i) [0..<64]"
  have len: "length ?t \<le> 64" using length_takeWhile_le [of _ "[0..<64]"] by simp
  from a have "\<not> bit x ([0..<64] ! i)"
    unfolding ctzl_def by (rule takeWhile_upt_less)
  moreover have "i < 64" using a len by (simp add: ctzl_def)
  ultimately show ?thesis by simp
qed

lemma clzl_zero_above: "64 - clzl x \<le> i \<Longrightarrow> \<not> bit x i"
proof (cases "i < 64")
  case False
  then show ?thesis using bit_imp_le_length [of x i] by auto
next
  case True
  assume a: "64 - clzl x \<le> i"
  let ?t = "takeWhile (\<lambda>i. \<not> bit x i) (rev [0..<64])"
  have "63 - i < length ?t" using a True by (simp add: clzl_def)
  then have "\<not> bit x (rev [0..<64] ! (63 - i))" by (rule takeWhile_upt_less)
  moreover have "rev [0..<64] ! (63 - i) = i"
    using True by (simp add: rev_nth)
  ultimately show ?thesis by simp
qed

lemma ctzl_lt: "x \<noteq> 0 \<Longrightarrow> ctzl x < 64"
proof (rule ccontr)
  assume nz: "x \<noteq> 0" and "\<not> ctzl x < 64"
  then have "\<And>i. i < 64 \<Longrightarrow> \<not> bit x i" using ctzl_zero_below [of _ x] by simp
  then have "x = 0" by (intro bit_word_eqI) simp
  with nz show False by simp
qed

lemma clzl_lt: "x \<noteq> 0 \<Longrightarrow> clzl x < 64"
proof (rule ccontr)
  assume nz: "x \<noteq> 0" and "\<not> clzl x < 64"
  then have "\<And>i. \<not> bit x i" using clzl_zero_above [of x] by simp
  then have "x = 0" by (intro bit_word_eqI) simp
  with nz show False by simp
qed

subsection \<open>The flag of a residual\<close>

lemma le7_cases:
  "k \<le> 7 \<Longrightarrow> k = 0 \<or> k = 1 \<or> k = 2 \<or> k = 3 \<or> k = 4 \<or> k = 5 \<or> k = 6 \<or> k = (7::nat)"
  by arith

lemma flag_low:
  assumes "k \<le> 7"
  shows "flag_nbytes (of_nat k AND 7) = k + 1" and "flag_shift (of_nat k AND 7) = 0"
    and "(of_nat k AND 7 :: u8) < 16"
  using le7_cases [OF assms] by (auto simp: flag_nbytes_def flag_shift_def)

lemma flag_high:
  assumes "k \<le> 7"
  shows "flag_nbytes (8 OR (of_nat k AND 7)) = k + 1"
    and "flag_shift (8 OR (of_nat k AND 7)) = 64 - 8 * (k + 1)"
    and "(8 OR (of_nat k AND 7) :: u8) < 16"
  using le7_cases [OF assms] by (auto simp: flag_nbytes_def flag_shift_def)

lemma flag_of_diff_cases:
  obtains (zero) "diff = 0" "flag_of_diff diff = 0"
  | (high) k where "diff \<noteq> 0" "ctzl diff > clzl diff" "k = 7 - ctzl diff div 8"
      "flag_of_diff diff = 8 OR (of_nat k AND 7)"
  | (low) k where "diff \<noteq> 0" "ctzl diff \<le> clzl diff" "k = 7 - clzl diff div 8"
      "flag_of_diff diff = of_nat k AND 7"
proof (cases "diff = 0")
  case True
  then have "flag_of_diff diff = 0" by (simp add: flag_of_diff_def)
  with True show ?thesis by (rule zero)
next
  case nz: False
  have tz: "ctzl diff div 8 \<le> 7" and lz: "clzl diff div 8 \<le> 7"
    using ctzl_lt [OF nz] clzl_lt [OF nz] by simp_all
  show ?thesis
  proof (cases "ctzl diff > clzl diff")
    case True
    have "8 - ctzl diff div 8 - 1 = 7 - ctzl diff div 8" by simp
    with nz True tz have "flag_of_diff diff = 8 OR (of_nat (7 - ctzl diff div 8) AND 7)"
      by (simp add: flag_of_diff_def Let_def)
    with nz True show ?thesis by (intro high [of "7 - ctzl diff div 8"]) simp_all
  next
    case False
    have "8 - clzl diff div 8 - 1 = 7 - clzl diff div 8" by simp
    with nz False lz have "flag_of_diff diff = of_nat (7 - clzl diff div 8) AND 7"
      by (simp add: flag_of_diff_def Let_def)
    with nz False show ?thesis by (intro low [of "7 - clzl diff div 8"]) simp_all
  qed
qed

lemma flag_of_diff_lt_16: "flag_of_diff diff < 16"
  by (cases diff rule: flag_of_diff_cases) (simp_all add: flag_low flag_high)

lemma flag_of_diff_restores:
  "push_bit (flag_shift (flag_of_diff diff))
     (take_bit (8 * flag_nbytes (flag_of_diff diff)) (drop_bit (flag_shift (flag_of_diff diff)) diff))
   = diff"
proof (cases diff rule: flag_of_diff_cases)
  case zero
  then show ?thesis by simp
next
  case (high k)
  have k7: "k \<le> 7" using high(3) by simp
  have tz: "ctzl diff < 64" using high(1) by (rule ctzl_lt)
  have "k + 1 = 8 - ctzl diff div 8" and "64 - 8 * (k + 1) = 8 * (ctzl diff div 8)"
    using high(3) tz by arith+
  then have nb: "flag_nbytes (flag_of_diff diff) = 8 - ctzl diff div 8"
    and sh: "flag_shift (flag_of_diff diff) = 8 * (ctzl diff div 8)"
    using flag_high(1,2) [OF k7] high(4) by simp_all
  have below: "bit diff n \<longrightarrow> 8 * (ctzl diff div 8) \<le> n" for n
    using ctzl_zero_below [of n diff] by (cases "n < ctzl diff") auto
  show ?thesis
    unfolding nb sh
  proof (rule bit_word_eqI)
    fix n assume "n < LENGTH(64)"
    then have n: "n < 64" by simp
    show "bit (push_bit (8 * (ctzl diff div 8))
             (take_bit (8 * (8 - ctzl diff div 8)) (drop_bit (8 * (ctzl diff div 8)) diff))) n
          \<longleftrightarrow> bit diff n"
      using n below [of n] tz by (auto simp: bit_simps)
  qed
next
  case (low k)
  have k7: "k \<le> 7" using low(3) by simp
  have lz: "clzl diff < 64" using low(1) by (rule clzl_lt)
  have "k + 1 = 8 - clzl diff div 8"
    using low(3) lz by arith
  then have nb: "flag_nbytes (flag_of_diff diff) = 8 - clzl diff div 8"
    using flag_low(1) [OF k7] low(4) by simp
  have sh: "flag_shift (flag_of_diff diff) = 0"
    using flag_low(2) [OF k7] low(4) by simp
  have above: "bit diff n \<longrightarrow> n < 8 * (8 - clzl diff div 8)" for n
    using clzl_zero_above [of diff n] lz by (cases "64 - clzl diff \<le> n") auto
  show ?thesis
    unfolding nb sh
  proof (rule bit_word_eqI)
    fix n assume "n < LENGTH(64)"
    show "bit (push_bit 0 (take_bit (8 * (8 - clzl diff div 8)) (drop_bit 0 diff))) n \<longleftrightarrow> bit diff n"
      using above [of n] by (auto simp: bit_simps)
  qed
qed

lemma decode_value_encoded:
  "decode_value (value_bytes diff (flag_of_diff diff) @ rest) (flag_of_diff diff) = Inr (diff, rest)"
  by (simp add: decode_value_value_bytes flag_of_diff_restores)

lemma flag_zero [simp]: "flag_nbytes 0 = 1" "flag_shift 0 = 0" "value_bytes 0 0 = [0]"
  by (simp_all add: flag_nbytes_def flag_shift_def value_bytes_def le_bytes_numeral)

lemma nibbles:
  assumes "(a :: u8) < 16" "(b :: u8) < 16"
  shows "drop_bit 4 (push_bit 4 a OR b) = a" and "(push_bit 4 a OR b) AND 0xF = b"
proof -
  have m: "(0xF :: u8) = mask 4" by (simp add: mask_eq_exp_minus_1)
  have "a AND mask 4 = a" "b AND mask 4 = b"
    using assms less_mask_eq [of a 4] less_mask_eq [of b 4] by simp_all
  then have a: "take_bit 4 a = a" and b: "take_bit 4 b = b"
    by (simp_all add: take_bit_eq_mask)
  have hi: "bit b n \<longrightarrow> n < 4" for n
    using bit_take_bit_iff [of 4 b n] b by auto
  show "drop_bit 4 (push_bit 4 a OR b) = a"
  proof (rule bit_word_eqI)
    fix n assume "n < LENGTH(8)"
    then show "bit (drop_bit 4 (push_bit 4 a OR b)) n \<longleftrightarrow> bit a n"
      using hi [of "4 + n"] bit_take_bit_iff [of 4 a n] a by (auto simp: bit_simps)
  qed
  show "(push_bit 4 a OR b) AND 0xF = b"
    unfolding m
  proof (rule bit_word_eqI)
    fix n assume "n < LENGTH(8)"
    then show "bit ((push_bit 4 a OR b) AND mask 4) n \<longleftrightarrow> bit b n"
      using hi [of n] by (auto simp: bit_simps)
  qed
qed

section \<open>Properties of the double codec\<close>

subsection \<open>Groups of two\<close>

lemma length_pair_bytes:
  "length (pair_bytes da fa db fb) = 1 + flag_nbytes fa + flag_nbytes fb"
  by (simp add: pair_bytes_def)

lemma pair_write:
  assumes "pos w + length (pair_bytes da fa db fb) \<le> length (buf w)"
  shows "put_raw_u8 (push_bit 4 fa OR fb) w = (True, append_bytes [push_bit 4 fa OR fb] w)"
    and "encode_value da fa (append_bytes [push_bit 4 fa OR fb] w)
           = (True, append_bytes ((push_bit 4 fa OR fb) # value_bytes da fa) w)"
    and "encode_value db fb (append_bytes ((push_bit 4 fa OR fb) # value_bytes da fa) w)
           = (True, append_bytes (pair_bytes da fa db fb) w)"
proof -
  let ?c = "push_bit 4 fa OR fb"
  from assms have room: "pos w + (1 + flag_nbytes fa + flag_nbytes fb) \<le> length (buf w)"
    by (simp add: length_pair_bytes)
  show "put_raw_u8 ?c w = (True, append_bytes [?c] w)"
    using room by (simp add: put_raw_u8_def put_bytes_eq space_left_def)
  have "encode_value da fa (append_bytes [?c] w)
          = (True, append_bytes (value_bytes da fa) (append_bytes [?c] w))"
    using room by (intro encode_value_eq) simp
  also have "append_bytes (value_bytes da fa) (append_bytes [?c] w) = append_bytes ([?c] @ value_bytes da fa) w"
    using room by (intro append_bytes_append) simp
  finally show 2: "encode_value da fa (append_bytes [?c] w)
           = (True, append_bytes (?c # value_bytes da fa) w)" by simp
  have "encode_value db fb (append_bytes (?c # value_bytes da fa) w)
          = (True, append_bytes (value_bytes db fb) (append_bytes (?c # value_bytes da fa) w))"
    using room by (intro encode_value_eq) simp
  also have "append_bytes (value_bytes db fb) (append_bytes (?c # value_bytes da fa) w)
          = append_bytes ((?c # value_bytes da fa) @ value_bytes db fb) w"
    using room by (intro append_bytes_append) simp
  finally show "encode_value db fb (append_bytes (?c # value_bytes da fa) w)
           = (True, append_bytes (pair_bytes da fa db fb) w)" by (simp add: pair_bytes_def)
qed

lemma append_bytes_Nil [simp]: "pos w \<le> length (buf w) \<Longrightarrow> append_bytes [] w = w"
  by (simp add: append_bytes_def store_bytes_def)

subsection \<open>compress\_doubles writes the encoded form\<close>

lemma compress_doubles_loop_bytes:
  assumes "even ix" and "pos w + length (fcm_bytes pr input) \<le> length (buf w)"
  shows "\<exists>pd' pf' front.
           compress_doubles_loop ix input pr pd pf w = (pd', pf', append_bytes front w)
           \<and> fcm_bytes pr input = front @ (if even (length input) then [] else pair_bytes pd' pf' 0 0)"
  using assms
proof (induction pr input arbitrary: ix pd pf w rule: fcm_bytes.induct)
  case (1 pr)
  then show ?case by simp
next
  case (2 pr a)
  then have "ix mod 2 = 0" by presburger
  with 2 show ?case by (simp add: Let_def)
next
  case (3 pr a b rest)
  let ?da = "a XOR predict_next pr"
  let ?pr1 = "update a pr"
  let ?db = "b XOR predict_next ?pr1"
  let ?pr2 = "update b ?pr1"
  let ?pair = "pair_bytes ?da (flag_of_diff ?da) ?db (flag_of_diff ?db)"
  let ?w3 = "append_bytes ?pair w"
  from "3.prems"(2) have room: "pos w + length ?pair + length (fcm_bytes ?pr2 rest) \<le> length (buf w)"
    by (simp add: Let_def)
  then have room1: "pos w + length ?pair \<le> length (buf w)" by simp
  have par: "ix mod 2 = 0" "Suc ix mod 2 = 1" "even (Suc (Suc ix))"
    using "3.prems"(1) by presburger+
  have step: "compress_doubles_loop ix (a # b # rest) pr pd pf w
      = compress_doubles_loop (Suc (Suc ix)) rest ?pr2 ?da (flag_of_diff ?da) ?w3"
    using par pair_write [OF room1] by (simp add: Let_def)
  have "pos ?w3 + length (fcm_bytes ?pr2 rest) \<le> length (buf ?w3)"
    using room by simp
  from "3.IH" [OF refl refl refl refl par(3) this, of ?da "flag_of_diff ?da"]
  obtain pd' pf' front where
    loop: "compress_doubles_loop (Suc (Suc ix)) rest ?pr2 ?da (flag_of_diff ?da) ?w3
             = (pd', pf', append_bytes front ?w3)"
    and bytes: "fcm_bytes ?pr2 rest = front @ (if even (length rest) then [] else pair_bytes pd' pf' 0 0)"
    by blast
  have "pos w + length ?pair + length front \<le> length (buf w)"
    using room bytes by simp
  then have "append_bytes front ?w3 = append_bytes (?pair @ front) w"
    by (rule append_bytes_append)
  with loop bytes show ?case
    unfolding step
    by (intro exI [of _ pd'] exI [of _ pf'] exI [of _ "?pair @ front"]) (simp add: Let_def)
qed

lemma compress_doubles_bytes:
  assumes "pos w + length (fcm_bytes (PredictorT_new pk PREDICTOR_N) input) \<le> length (buf w)"
  shows "compress_doubles pk input w
           = (length input, append_bytes (fcm_bytes (PredictorT_new pk PREDICTOR_N) input) w)"
proof -
  let ?pr = "PredictorT_new pk PREDICTOR_N"
  from compress_doubles_loop_bytes [of 0 w ?pr input 0 0] assms
  obtain pd pf front where
    loop: "compress_doubles_loop 0 input ?pr 0 0 w = (pd, pf, append_bytes front w)"
    and bytes: "fcm_bytes ?pr input = front @ (if even (length input) then [] else pair_bytes pd pf 0 0)"
    by auto
  show ?thesis
  proof (cases "even (length input)")
    case True
    with bytes show ?thesis by (simp add: compress_doubles_def loop)
  next
    case False
    then have odd: "length input mod 2 \<noteq> 0" by presburger
    from False bytes have b: "fcm_bytes ?pr input = front @ pair_bytes pd pf 0 0" by simp
    with assms have room: "pos w + length front + length (pair_bytes pd pf 0 0) \<le> length (buf w)"
      by simp
    then have "pos (append_bytes front w) + length (pair_bytes pd pf 0 0) \<le> length (buf (append_bytes front w))"
      by simp
    from pair_write [OF this]
    have "snd (encode_value 0 0 (snd (encode_value pd pf (snd (put_raw_u8 (push_bit 4 pf) (append_bytes front w))))))
            = append_bytes (pair_bytes pd pf 0 0) (append_bytes front w)"
      by simp
    also have "\<dots> = append_bytes (front @ pair_bytes pd pf 0 0) w"
      using room by (rule append_bytes_append)
    finally show ?thesis
      using odd by (simp add: compress_doubles_def loop Let_def b)
  qed
qed

subsection \<open>decompress\_doubles reads the encoded form\<close>

declare decompress_doubles_loop.simps [simp del]

lemma overwrite_step:
  assumes "it < length out"
  shows "take (Suc it) (out[it := a]) @ xs @ drop (Suc it + n) (out[it := a])
       = take it out @ a # xs @ drop (it + Suc n) out"
  using assms by (simp add: take_Suc_conv_app_nth)

lemma decompress_step_even:
  assumes "even i" "i < numvalues" "it < length out" "fa < 16" "fb < 16"
  shows "decompress_doubles_loop i numvalues pr flags it out
           ((push_bit 4 fa OR fb) # value_bytes d fa @ rest)
       = (case decode_value (value_bytes d fa @ rest) fa of
            Inl e \<Rightarrow> Inl e
          | Inr (diff, r2) \<Rightarrow>
              decompress_doubles_loop (Suc i) numvalues (update (predict_next pr XOR diff) pr)
                (push_bit 4 fa OR fb) (Suc it) (out[it := predict_next pr XOR diff]) r2)"
proof -
  have "i mod 2 = 0" using assms(1) by presburger
  then show ?thesis
    using assms(2-)
    by (subst decompress_doubles_loop.simps) (simp add: nibbles Let_def del: drop_bit_or split: sum.splits)
qed

lemma decompress_step_odd:
  assumes "odd i" "i < numvalues" "it < length out" "fa < 16" "fb < 16"
  shows "decompress_doubles_loop i numvalues pr (push_bit 4 fa OR fb) it out r
       = (case decode_value r fb of
            Inl e \<Rightarrow> Inl e
          | Inr (diff, r2) \<Rightarrow>
              decompress_doubles_loop (Suc i) numvalues (update (predict_next pr XOR diff) pr)
                (push_bit 4 fa OR fb) (Suc it) (out[it := predict_next pr XOR diff]) r2)"
proof -
  have "i mod 2 = 1" using assms(1) by presburger
  then show ?thesis
    using assms(2-)
    by (subst decompress_doubles_loop.simps) (simp add: nibbles Let_def del: drop_bit_or split: sum.splits)
qed

lemma xor_restore: "p XOR (a XOR p) = (a :: u64)"
  by (simp add: ac_simps)

lemma decompress_doubles_loop_bytes:
  assumes "even i" and "it + length input \<le> length out"
  shows "decompress_doubles_loop i (i + length input) pr flags it out (fcm_bytes pr input @ rest)
       = Inr (take it out @ input @ drop (it + length input) out,
              (if even (length input) then [] else [0]) @ rest)"
  using assms
proof (induction pr input arbitrary: i it out flags rule: fcm_bytes.induct)
  case (1 pr)
  then show ?case by (subst decompress_doubles_loop.simps) simp
next
  case (2 pr a)
  let ?da = "a XOR predict_next pr"
  have lt: "it < length out" using 2 by simp
  have fin: "decompress_doubles_loop (Suc i) (Suc i) p f t out r = Inr (out, r)" for p f t out r
    by (subst decompress_doubles_loop.simps) simp
  show ?case
    using decompress_step_even [OF "2.prems"(1) _ lt flag_of_diff_lt_16 [of ?da], of "Suc i" 0 pr flags ?da "[0] @ rest"]
      upd_conv_take_nth_drop [OF lt, of a]
    by (simp add: pair_bytes_def decode_value_encoded xor_restore fin Let_def)
next
  case (3 pr a b rest')
  let ?da = "a XOR predict_next pr"
  let ?pr1 = "update a pr"
  let ?db = "b XOR predict_next ?pr1"
  let ?pr2 = "update b ?pr1"
  let ?fa = "flag_of_diff ?da" and ?fb = "flag_of_diff ?db"
  let ?n = "i + length (a # b # rest')"
  let ?tail = "fcm_bytes ?pr2 rest' @ rest"
  have lt: "it < length out" "Suc it < length (out[it := a])" using "3.prems" by simp_all
  have par: "odd (Suc i)" "even (Suc (Suc i))" using "3.prems"(1) by simp_all
  have n: "?n = Suc (Suc i) + length rest'" by simp
  have s1: "decompress_doubles_loop i ?n pr flags it out (fcm_bytes pr (a # b # rest') @ rest)
      = decompress_doubles_loop (Suc i) ?n ?pr1 (push_bit 4 ?fa OR ?fb) (Suc it) (out[it := a])
          (value_bytes ?db ?fb @ ?tail)"
    using decompress_step_even [OF "3.prems"(1) _ lt(1) flag_of_diff_lt_16 [of ?da] flag_of_diff_lt_16 [of ?db],
        of ?n pr flags ?da "value_bytes ?db ?fb @ ?tail"]
    by (simp add: pair_bytes_def decode_value_encoded xor_restore Let_def)
  have s2: "decompress_doubles_loop (Suc i) ?n ?pr1 (push_bit 4 ?fa OR ?fb) (Suc it) (out[it := a])
          (value_bytes ?db ?fb @ ?tail)
      = decompress_doubles_loop (Suc (Suc i)) ?n ?pr2 (push_bit 4 ?fa OR ?fb) (Suc (Suc it))
          (out[it := a, Suc it := b]) ?tail"
    using decompress_step_odd [OF par(1) _ lt(2) flag_of_diff_lt_16 [of ?da] flag_of_diff_lt_16 [of ?db],
        of ?n ?pr1 "value_bytes ?db ?fb @ ?tail"]
    by (simp add: decode_value_encoded xor_restore)
  have len: "Suc (Suc it) + length rest' \<le> length (out[it := a, Suc it := b])"
    using "3.prems"(2) by simp
  have s3: "decompress_doubles_loop (Suc (Suc i)) ?n ?pr2 (push_bit 4 ?fa OR ?fb) (Suc (Suc it))
          (out[it := a, Suc it := b]) ?tail
      = Inr (take (Suc (Suc it)) (out[it := a, Suc it := b]) @ rest'
               @ drop (Suc (Suc it) + length rest') (out[it := a, Suc it := b]),
             (if even (length rest') then [] else [0]) @ rest)"
    unfolding n by (rule "3.IH" [OF refl refl refl refl par(2) len])
  have "take (Suc (Suc it)) (out[it := a, Suc it := b]) @ rest'
               @ drop (Suc (Suc it) + length rest') (out[it := a, Suc it := b])
      = take (Suc it) (out[it := a]) @ b # rest' @ drop (Suc it + Suc (length rest')) (out[it := a])"
    by (rule overwrite_step [OF lt(2)])
  also have "\<dots> = take (Suc it) (out[it := a]) @ (b # rest') @ drop (Suc it + length (b # rest')) (out[it := a])"
    by simp
  also have "\<dots> = take it out @ a # (b # rest') @ drop (it + Suc (length (b # rest'))) out"
    by (rule overwrite_step [OF lt(1)])
  finally show ?case
    unfolding s1 s2 s3 by simp
qed

lemma drop_store_bytes:
  "off + length bs \<le> length b \<Longrightarrow> drop off (store_bytes off bs b) = bs @ drop (off + length bs) b"
  by (simp add: store_bytes_def)

lemma read_back:
  "pos w + length bs \<le> length (buf w) \<Longrightarrow>
   drop (pos w) (buf (append_bytes bs w)) = bs @ drop (pos w + length bs) (buf w)"
  by (simp add: append_bytes_def drop_store_bytes)

text \<open>C3: for every vector of 64-bit patterns (every double, whatever its class) whose
  encoded form fits into the space left in the stream, \<open>decompress_doubles\<close> applied to the
  bytes \<open>compress_doubles\<close> wrote, with the count it returned, stores every input pattern, in
  order, into the output vector (which the caller has sized to hold them at least).\<close>

theorem compress_decompress_doubles:
  assumes "pos w + length (fcm_bytes (PredictorT_new pk PREDICTOR_N) input) \<le> length (buf w)"
    and "length input \<le> length out"
  shows "fst (compress_doubles pk input w) = length input
       \<and> (\<exists>rstream'. decompress_doubles pk (drop (pos w) (buf (snd (compress_doubles pk input w))))
                    (fst (compress_doubles pk input w)) out
               = Inr (input @ drop (length input) out, rstream'))"
  using decompress_doubles_loop_bytes [where i = 0 and it = 0 and input = input and out = out
      and pr = "PredictorT_new pk PREDICTOR_N" and flags = 0
      and rest = "drop (pos w + length (fcm_bytes (PredictorT_new pk PREDICTOR_N) input)) (buf w)"] assms
  by (simp add: compress_doubles_bytes read_back decompress_doubles_def)

theorem compress_decompress_doubles_witness:
  "pos (empty_stream 64) + length (fcm_bytes (PredictorT_new UseFcm PREDICTOR_N) irregular_doubles)
     \<le> length (buf (empty_stream 64))
   \<and> length irregular_doubles \<le> length (replicate 7 (0 :: double))
   \<and> fst (compress_doubles UseFcm irregular_doubles (empty_stream 64)) = length irregular_doubles
   \<and> (\<exists>rstream'.
         decompress_doubles UseFcm
           (drop (pos (empty_stream 64))
              (buf (snd (compress_doubles UseFcm irregular_doubles (empty_stream 64)))))
           (fst (compress_doubles UseFcm irregular_doubles (empty_stream 64))) (replicate 7 0)
         = Inr (irregular_doubles @ drop (length irregular_doubles) (replicate 7 0), rstream'))"
proof -
  have fits: "pos (empty_stream 64)
      + length (fcm_bytes (PredictorT_new UseFcm PREDICTOR_N) irregular_doubles)
      \<le> length (buf (empty_stream 64))"
    by code_simp
  have sized: "length irregular_doubles \<le> length (replicate 7 (0 :: double))"
    by (simp add: irregular_doubles_def)
  from compress_decompress_doubles [OF fits sized] fits sized show ?thesis
    by blast
qed

lemma flag_nbytes_bounds: "unat (flag AND 7) \<le> 7" for flag :: u8
  using flag_nbytes_range [of flag] by (simp add: flag_nbytes_def)

lemma written_append_bytes:
  "pos w + length bs \<le> length (buf w) \<Longrightarrow>
   drop (pos w) (take (pos w + length bs) (buf (append_bytes bs w))) = bs"
  by (simp add: append_bytes_def store_bytes_def)

lemma FcmStreamWriter_put_odd:
  assumes "odd (nelements s)"
    and "pos w + length (pair_bytes (prev_diff s) (prev_flag s) (v XOR predict_next (predictor s))
            (flag_of_diff (v XOR predict_next (predictor s)))) \<le> length (buf w)"
  shows "FcmStreamWriter_put v s w =
     (True, s\<lparr>predictor := update v (predictor s), nelements := nelements s + 1\<rparr>,
      append_bytes (pair_bytes (prev_diff s) (prev_flag s) (v XOR predict_next (predictor s))
            (flag_of_diff (v XOR predict_next (predictor s)))) w)"
proof -
  have "nelements s mod 2 \<noteq> 0" using assms(1) by presburger
  then show ?thesis
    using pair_write [OF assms(2)] by (simp add: FcmStreamWriter_put_def Let_def)
qed

lemma FcmStreamWriter_put_even:
  assumes "even (nelements s)"
  shows "FcmStreamWriter_put v s w =
     (True, s\<lparr>predictor := update v (predictor s), prev_diff := v XOR predict_next (predictor s),
         prev_flag := flag_of_diff (v XOR predict_next (predictor s)),
         nelements := nelements s + 1\<rparr>, w)"
proof -
  have "nelements s mod 2 = 0" using assms(1) by presburger
  then show ?thesis by (simp add: FcmStreamWriter_put_def Let_def)
qed

lemma FcmStreamWriter_commit_odd:
  assumes "odd (nelements s)"
    and "pos w + length (pair_bytes (prev_diff s) (prev_flag s) 0 0) \<le> length (buf w)"
  shows "FcmStreamWriter_commit s w =
     (True, s, append_bytes (pair_bytes (prev_diff s) (prev_flag s) 0 0) w)"
proof -
  have "nelements s mod 2 \<noteq> 0" using assms(1) by presburger
  then show ?thesis
    using pair_write [OF assms(2)] by (simp add: FcmStreamWriter_commit_def Let_def stream_commit_def)
qed

lemma FcmStreamWriter_commit_even:
  assumes "even (nelements s)"
  shows "FcmStreamWriter_commit s w = (True, s, w)"
proof -
  have "nelements s mod 2 = 0" using assms(1) by presburger
  then show ?thesis by (simp add: FcmStreamWriter_commit_def stream_commit_def)
qed

text \<open>C6, as the code has it: a group of two samples occupies the control byte and the two
  residuals of \<open>(flag_a & 7) + 1\<close> and \<open>(flag_b & 7) + 1\<close> bytes, that is
  \<open>1 + ((flag_a & 7) + 1) + ((flag_b & 7) + 1)\<close> bytes, between 3 and 17. (\<open>flag_a\<close> is the flag
  the writer kept from the first sample of the group, \<open>prev_flag\<close>.)\<close>

theorem pair_size:
  assumes "odd (nelements s)"
    and "flag_b = flag_of_diff (v XOR predict_next (predictor s))"
    and "pos w + (1 + (unat (prev_flag s AND 7) + 1) + (unat (flag_b AND 7) + 1)) \<le> length (buf w)"
  shows "\<exists>s' w'. FcmStreamWriter_put v s w = (True, s', w')
           \<and> pos w' = pos w + (1 + (unat (prev_flag s AND 7) + 1) + (unat (flag_b AND 7) + 1))
           \<and> drop (pos w) (take (pos w') (buf w'))
               = (push_bit 4 (prev_flag s) OR flag_b) # value_bytes (prev_diff s) (prev_flag s)
                   @ value_bytes (v XOR predict_next (predictor s)) flag_b
           \<and> length (value_bytes (prev_diff s) (prev_flag s)) = unat (prev_flag s AND 7) + 1
           \<and> length (value_bytes (v XOR predict_next (predictor s)) flag_b) = unat (flag_b AND 7) + 1
           \<and> pos w + 3 \<le> pos w' \<and> pos w' \<le> pos w + 17"
proof -
  let ?d = "v XOR predict_next (predictor s)"
  let ?pair = "pair_bytes (prev_diff s) (prev_flag s) ?d flag_b"
  have len: "length ?pair = 1 + (unat (prev_flag s AND 7) + 1) + (unat (flag_b AND 7) + 1)"
    by (simp add: length_pair_bytes flag_nbytes_def)
  with assms(3) have room: "pos w + length ?pair \<le> length (buf w)" by simp
  have put: "FcmStreamWriter_put v s w =
     (True, s\<lparr>predictor := update v (predictor s), nelements := nelements s + 1\<rparr>,
      append_bytes ?pair w)"
    using FcmStreamWriter_put_odd [OF assms(1), of w v] room assms(2) by simp
  have "drop (pos w) (take (pos w + length ?pair) (buf (append_bytes ?pair w))) = ?pair"
    using room by (rule written_append_bytes)
  then show ?thesis
    using flag_nbytes_bounds [of "prev_flag s"] flag_nbytes_bounds [of flag_b] len
    by (simp add: put pair_bytes_def flag_nbytes_def)
qed

theorem pair_size_witness:
  "odd (nelements one_sample_writer)
   \<and> pos (empty_stream 32)
       + (1 + (unat (prev_flag one_sample_writer AND 7) + 1)
            + (unat (flag_of_diff (1 XOR predict_next (predictor one_sample_writer)) AND 7) + 1))
       \<le> length (buf (empty_stream 32))
   \<and> (\<exists>s' w'. FcmStreamWriter_put 1 one_sample_writer (empty_stream 32) = (True, s', w')
         \<and> pos w' = pos (empty_stream 32)
             + (1 + (unat (prev_flag one_sample_writer AND 7) + 1)
                  + (unat (flag_of_diff (1 XOR predict_next (predictor one_sample_writer)) AND 7) + 1))
         \<and> drop (pos (empty_stream 32)) (take (pos w') (buf w'))
             = (push_bit 4 (prev_flag one_sample_writer)
                  OR flag_of_diff (1 XOR predict_next (predictor one_sample_writer)))
               # value_bytes (prev_diff one_sample_writer) (prev_flag one_sample_writer)
               @ value_bytes (1 XOR predict_next (predictor one_sample_writer))
                   (flag_of_diff (1 XOR predict_next (predictor one_sample_writer)))
         \<and> length (value_bytes (prev_diff one_sample_writer) (prev_flag one_sample_writer))
             = unat (prev_flag one_sample_writer AND 7) + 1
         \<and> length (value_bytes (1 XOR predict_next (predictor one_sample_writer))
                     (flag_of_diff (1 XOR predict_next (predictor one_sample_writer))))
             = unat (flag_of_diff (1 XOR predict_next (predictor one_sample_writer)) AND 7) + 1
         \<and> pos (empty_stream 32) + 3 \<le> pos w' \<and> pos w' \<le> pos (empty_stream 32) + 17)"
proof -
  have odd: "odd (nelements one_sample_writer)"
    by code_simp
  have room: "pos (empty_stream 32)
       + (1 + (unat (prev_flag one_sample_writer AND 7) + 1)
            + (unat (flag_of_diff (1 XOR predict_next (predictor one_sample_writer)) AND 7) + 1))
       \<le> length (buf (empty_stream 32))"
    by code_simp
  from pair_size [OF odd refl room] odd room show ?thesis
    by blast
qed

text \<open>C6, as the claim states it, fails on two zero samples: both flags are 0, the group is the
  three bytes 0, 0, 0, and the formula of the claim gives 4.\<close>

theorem pair_size_counterexample:
  "pos two_zeros_stream = 3
   \<and> take 3 (buf two_zeros_stream) = [0, 0, 0]
   \<and> pos two_zeros_stream
       \<noteq> 1 + unat (drop_bit 4 (buf two_zeros_stream ! 0) AND 7)
         + 1 + unat (buf two_zeros_stream ! 0 AND 7) + 2
   \<and> \<not> (4 \<le> pos two_zeros_stream)"
  by code_simp


section \<open>What the writers leave untouched\<close>

lemma stream_frame_refl: "pos w \<le> length (buf w) \<Longrightarrow> stream_frame w w"
  by (simp add: stream_frame_def)

lemma stream_frame_trans:
  assumes "stream_frame a b" "stream_frame b c"
  shows "stream_frame a c"
proof -
  have "take (pos a) (buf c) = take (pos a) (take (pos b) (buf c))"
    using assms(1) by (simp add: stream_frame_def min_def)
  also have "\<dots> = take (pos a) (take (pos b) (buf b))"
    using assms(2) by (simp add: stream_frame_def)
  also have "\<dots> = take (pos a) (buf a)"
    using assms(1) by (simp add: stream_frame_def min_def)
  finally show ?thesis using assms by (simp add: stream_frame_def)
qed

lemma stream_frame_inside: "stream_frame w w' \<Longrightarrow> pos w' \<le> length (buf w')"
  by (simp add: stream_frame_def)

lemma put_bytes_frame:
  "pos w \<le> length (buf w) \<Longrightarrow> stream_frame w (snd (put_bytes bs w))"
  by (auto simp: put_bytes_def stream_frame_def space_left_def store_bytes_def not_less)

lemma allocate_frame:
  "pos w \<le> length (buf w) \<Longrightarrow> stream_frame w (snd (allocate n w))"
  by (auto simp: allocate_def stream_frame_def space_left_def not_less)

lemma and_then_frame:
  assumes "\<And>s. pos s \<le> length (buf s) \<Longrightarrow> stream_frame s (snd (f s))"
    and "\<And>s. pos s \<le> length (buf s) \<Longrightarrow> stream_frame s (snd (g s))"
    and "pos w \<le> length (buf w)"
  shows "stream_frame w (snd (and_then f g w))"
proof (cases "f w")
  case (Pair ok w1)
  have 1: "stream_frame w w1" using assms(1) [OF assms(3)] Pair by simp
  show ?thesis
  proof (cases ok)
    case True
    have "stream_frame w1 (snd (g w1))" using 1 by (intro assms(2) stream_frame_inside)
    with 1 Pair True show ?thesis by (auto simp: and_then_def intro: stream_frame_trans)
  next
    case False
    with 1 Pair show ?thesis by (simp add: and_then_def)
  qed
qed

lemma encode_case_frames:
  assumes "pos w \<le> length (buf w)"
  shows "stream_frame w (snd (encode_case_1 d w))" "stream_frame w (snd (encode_case_2 d w))"
    "stream_frame w (snd (encode_case_3 d w))" "stream_frame w (snd (encode_case_4 d w))"
    "stream_frame w (snd (encode_case_5 d w))" "stream_frame w (snd (encode_case_6 d w))"
    "stream_frame w (snd (encode_case_7 d w))"
proof -
  have u8: "stream_frame s (snd (put_raw_u8 x s))" if "pos s \<le> length (buf s)" for x s
    using that by (simp add: put_raw_u8_def put_bytes_frame)
  have c1: "stream_frame s (snd (encode_case_1 x s))" if "pos s \<le> length (buf s)" for x s
    using that by (simp add: encode_case_1_def u8)
  have c2: "stream_frame s (snd (encode_case_2 x s))" if "pos s \<le> length (buf s)" for x s
    unfolding encode_case_2_def using that by (intro and_then_frame u8 c1)
  have c3: "stream_frame s (snd (encode_case_3 x s))" if "pos s \<le> length (buf s)" for x s
    unfolding encode_case_3_def using that by (intro and_then_frame u8 c2)
  have c4: "stream_frame s (snd (encode_case_4 x s))" if "pos s \<le> length (buf s)" for x s
    using that by (simp add: encode_case_4_def put_raw_u32_def put_bytes_frame)
  have c5: "stream_frame s (snd (encode_case_5 x s))" if "pos s \<le> length (buf s)" for x s
    unfolding encode_case_5_def using that by (intro and_then_frame u8 c4)
  have c6: "stream_frame s (snd (encode_case_6 x s))" if "pos s \<le> length (buf s)" for x s
    unfolding encode_case_6_def using that by (intro and_then_frame u8 c5)
  have c7: "stream_frame s (snd (encode_case_7 x s))" if "pos s \<le> length (buf s)" for x s
    unfolding encode_case_7_def using that by (intro and_then_frame u8 c6)
  show "stream_frame w (snd (encode_case_1 d w))" "stream_frame w (snd (encode_case_2 d w))"
    "stream_frame w (snd (encode_case_3 d w))" "stream_frame w (snd (encode_case_4 d w))"
    "stream_frame w (snd (encode_case_5 d w))" "stream_frame w (snd (encode_case_6 d w))"
    "stream_frame w (snd (encode_case_7 d w))"
    using assms by (rule c1 c2 c3 c4 c5 c6 c7)+
qed

lemma encode_value_frame:
  assumes "pos w \<le> length (buf w)"
  shows "stream_frame w (snd (encode_value diff flag w))"
  using assms encode_case_frames [OF assms]
  by (simp add: encode_value_alt Let_def put_raw_u64_def put_bytes_frame stream_frame_refl)

text \<open>Three writes in a row, each only when the one before succeeded.\<close>

lemma three_writes_frame:
  assumes "pos w \<le> length (buf w)"
    and f: "\<And>s. pos s \<le> length (buf s) \<Longrightarrow> stream_frame s (snd (f s))"
    and g: "\<And>s. pos s \<le> length (buf s) \<Longrightarrow> stream_frame s (snd (g s))"
    and h: "\<And>s. pos s \<le> length (buf s) \<Longrightarrow> stream_frame s (snd (h s))"
  shows "stream_frame w (snd (snd
           (case f w of
              (False, s1) \<Rightarrow> (False, a, s1)
            | (True, s1) \<Rightarrow>
                (case g s1 of
                   (False, s2) \<Rightarrow> (False, a, s2)
                 | (True, s2) \<Rightarrow>
                     (case h s2 of
                        (False, s3) \<Rightarrow> (False, a, s3)
                      | (True, s3) \<Rightarrow> (True, b, s3))))))"
proof -
  obtain o1 s1 where 1: "f w = (o1, s1)" by (cases "f w")
  obtain o2 s2 where 2: "g s1 = (o2, s2)" by (cases "g s1")
  obtain o3 s3 where 3: "h s2 = (o3, s3)" by (cases "h s2")
  have f1: "stream_frame w s1" using f [OF assms(1)] 1 by simp
  then have f2: "stream_frame s1 s2" using g [of s1] 2 by (simp add: stream_frame_inside)
  then have f3: "stream_frame s2 s3" using h [of s2] 3 by (simp add: stream_frame_inside)
  from f1 f2 f3 have "stream_frame w s2" "stream_frame w s3"
    by (blast intro: stream_frame_trans)+
  with f1 show ?thesis by (simp add: 1 2 3 split: bool.splits)
qed

lemma FcmStreamWriter_put_frame:
  assumes "pos w \<le> length (buf w)"
  shows "stream_frame w (snd (snd (FcmStreamWriter_put v s w)))"
proof (cases "nelements s mod 2 = 0")
  case True
  then show ?thesis using assms by (simp add: FcmStreamWriter_put_def Let_def stream_frame_refl)
next
  case False
  have u8: "stream_frame x (snd (put_raw_u8 c x))" if "pos x \<le> length (buf x)" for c x
    using that by (simp add: put_raw_u8_def put_bytes_frame)
  from False show ?thesis
    unfolding FcmStreamWriter_put_def Let_def
    by (simp only: if_False) (rule three_writes_frame [OF assms u8 encode_value_frame encode_value_frame])
qed

lemma FcmStreamWriter_commit_frame:
  assumes "pos w \<le> length (buf w)"
  shows "stream_frame w (snd (snd (FcmStreamWriter_commit s w)))"
proof (cases "nelements s mod 2 \<noteq> 0")
  case False
  then show ?thesis
    using assms by (simp add: FcmStreamWriter_commit_def stream_commit_def stream_frame_refl)
next
  case True
  have u8: "stream_frame x (snd (put_raw_u8 c x))" if "pos x \<le> length (buf x)" for c x
    using that by (simp add: put_raw_u8_def put_bytes_frame)
  have "stream_frame w (snd (snd
           (case put_raw_u8 (push_bit 4 (prev_flag s)) w of
              (False, s1) \<Rightarrow> (False, s, s1)
            | (True, s1) \<Rightarrow>
                (case encode_value (prev_diff s) (prev_flag s) s1 of
                   (False, s2) \<Rightarrow> (False, s, s2)
                 | (True, s2) \<Rightarrow>
                     (case encode_value 0 0 s2 of
                        (False, s3) \<Rightarrow> (False, s, s3)
                      | (True, s3) \<Rightarrow> (True, s, s3))))))"
    by (rule three_writes_frame [OF assms u8 encode_value_frame encode_value_frame])
  with True show ?thesis
    by (simp add: FcmStreamWriter_commit_def stream_commit_def Let_def split: prod.splits bool.splits)
qed

lemma FcmStreamWriter_tput_frame:
  "pos w \<le> length (buf w) \<Longrightarrow> stream_frame w (snd (snd (FcmStreamWriter_tput vs s w)))"
proof (induction vs arbitrary: s w)
  case Nil
  then show ?case by (simp add: FcmStreamWriter_commit_frame)
next
  case (Cons v vs)
  obtain ok s1 w1 where put: "FcmStreamWriter_put v s w = (ok, s1, w1)" by (metis prod_cases3)
  have 1: "stream_frame w w1" using FcmStreamWriter_put_frame [OF Cons.prems, of v s] put by simp
  show ?case
  proof (cases ok)
    case True
    have "stream_frame w1 (snd (snd (FcmStreamWriter_tput vs s1 w1)))"
      using 1 by (intro Cons.IH stream_frame_inside)
    with 1 put True show ?thesis by (auto intro: stream_frame_trans)
  next
    case False
    with 1 put show ?thesis by simp
  qed
qed

declare base128.simps [simp del]

lemma DeltaRLEWriter_flush_frame:
  assumes "pos w \<le> length (buf w)"
  shows "stream_frame w (snd (snd (DeltaRLEWriter_flush s w)))"
proof -
  obtain o1 s1 where 1: "put_base128 (dw_reps s) w = (o1, s1)" by (cases "put_base128 (dw_reps s) w")
  obtain o2 s2 where 2: "put_base128 (dw_run s) s1 = (o2, s2)" by (cases "put_base128 (dw_run s) s1")
  have f1: "stream_frame w s1"
    using put_bytes_frame [OF assms, of "base128 (dw_reps s)"] 1 by (simp add: put_base128_def)
  then have "stream_frame s1 s2"
    using put_bytes_frame [of s1 "base128 (dw_run s)"] 2 by (simp add: put_base128_def stream_frame_inside)
  with f1 have "stream_frame w s2" by (rule stream_frame_trans)
  with f1 assms show ?thesis
    by (simp add: DeltaRLEWriter_flush_def 1 2 stream_frame_refl split: bool.splits)
qed

lemma DeltaRLEWriter_put_frame:
  assumes "pos w \<le> length (buf w)"
  shows "stream_frame w (snd (snd (DeltaRLEWriter_put v s w)))"
proof -
  obtain ok s1 w1 where fl: "DeltaRLEWriter_flush s w = (ok, s1, w1)" by (metis prod_cases3)
  then have "stream_frame w w1" using DeltaRLEWriter_flush_frame [OF assms, of s] by simp
  then show ?thesis
    using assms by (cases ok) (simp_all add: DeltaRLEWriter_put_def Let_def fl stream_frame_refl)
qed

lemma DeltaRLEWriter_commit_frame:
  assumes "pos w \<le> length (buf w)"
  shows "stream_frame w (snd (snd (DeltaRLEWriter_commit s w)))"
proof -
  obtain ok s1 w1 where fl: "DeltaRLEWriter_flush s w = (ok, s1, w1)" by (metis prod_cases3)
  then have "stream_frame w w1" using DeltaRLEWriter_flush_frame [OF assms, of s] by simp
  then show ?thesis
    by (cases ok) (simp_all add: DeltaRLEWriter_commit_def stream_commit_def fl)
qed

lemma DeltaRLEWriter_tput_frame:
  "pos w \<le> length (buf w) \<Longrightarrow> stream_frame w (snd (snd (DeltaRLEWriter_tput vs s w)))"
proof (induction vs arbitrary: s w)
  case Nil
  then show ?case by (simp add: DeltaRLEWriter_commit_frame)
next
  case (Cons v vs)
  obtain ok s1 w1 where put: "DeltaRLEWriter_put v s w = (ok, s1, w1)" by (metis prod_cases3)
  have 1: "stream_frame w w1" using DeltaRLEWriter_put_frame [OF Cons.prems, of v s] put by simp
  show ?case
  proof (cases ok)
    case True
    have "stream_frame w1 (snd (snd (DeltaRLEWriter_tput vs s1 w1)))"
      using 1 by (intro Cons.IH stream_frame_inside)
    with 1 put True show ?thesis by (auto intro: stream_frame_trans)
  next
    case False
    with 1 put show ?thesis by simp
  qed
qed

section \<open>The tail of the block writer\<close>

lemma from_le_le_bytes: "from_le (le_bytes n (x :: 'a :: len word)) = (take_bit (8 * n) x :: 'a word)"
proof (induction n arbitrary: x)
  case 0
  show ?case by simp
next
  case (Suc n)
  have "(ucast (ucast x :: u8) :: 'a word) OR push_bit 8 (take_bit (8 * n) (drop_bit 8 x))
        = take_bit (8 * Suc n) x"
    by (rule bit_word_eqI) (auto simp: bit_simps)
  then show ?case by (simp add: le_bytes_Suc Suc)
qed

lemma from_le_le_bytes_u16 [simp]: "from_le (le_bytes 2 (x :: u16)) = x"
  by (simp add: from_le_le_bytes take_bit_word_eq_self)

lemma header_tail_size_frame:
  assumes "take n b' = take n b" "6 \<le> n"
  shows "header_tail_size b' = header_tail_size b"
proof -
  have "take 6 (take n b') = take 6 (take n b)" using assms(1) by simp
  then have "take 6 b' = take 6 b" using assms(2) by (simp add: min_def)
  then have "drop 4 (take 6 b') = drop 4 (take 6 b)" by simp
  then show ?thesis by (simp add: header_tail_size_def load_bytes_def drop_take)
qed

lemma header_tail_size_incr:
  assumes "6 \<le> length b"
  shows "header_tail_size (incr_u16_at 4 b) = header_tail_size b + 1"
    and "length (incr_u16_at 4 b) = length b"
  using assms
  by (simp_all add: header_tail_size_def incr_u16_at_def load_bytes_def store_bytes_def)

lemma tail_inv_frame:
  assumes "tail_inv w" and "stream_frame (stream w) (stream w')" and "ptail_size w' = ptail_size w"
  shows "tail_inv w'"
proof -
  from assms(1) have p: "14 \<le> pos (stream w)" by (simp add: tail_inv_def)
  from assms(2) have fr: "length (buf (stream w')) = length (buf (stream w))"
    "pos (stream w) \<le> pos (stream w')" "pos (stream w') \<le> length (buf (stream w'))"
    "take (pos (stream w)) (buf (stream w')) = take (pos (stream w)) (buf (stream w))"
    by (simp_all add: stream_frame_def)
  have h: "header_tail_size (buf (stream w')) = header_tail_size (buf (stream w))"
    using fr(4) p by (intro header_tail_size_frame [of "pos (stream w)"]) simp_all
  have "space_left (stream w') \<le> space_left (stream w)"
    using fr by (simp add: space_left_def)
  with assms(1,3) p fr h show ?thesis by (auto simp: tail_inv_def)
qed

lemma put_raw_u64_result:
  "put_raw_u64 x s = (ok, s') \<Longrightarrow> pos s \<le> length (buf s) \<Longrightarrow>
   stream_frame s s' \<and> (ok \<longrightarrow> pos s' = pos s + 8)"
  using put_bytes_frame [of s "le_bytes 8 x"]
  by (auto simp: put_raw_u64_def put_bytes_def split: if_splits)

lemma DataBlockWriter_put_tail_inv:
  assumes "tail_inv w" and "DataBlockWriter_put ndebug ts v w = Inr (st, w')"
  shows "tail_inv w'"
proof (cases "room_for_chunk w")
  case True
  let ?w1 = "w\<lparr>ts_writebuf := (ts_writebuf w)[write_index w AND CHUNK_MASK := ts],
                val_writebuf := (val_writebuf w)[write_index w AND CHUNK_MASK := v],
                write_index := write_index w + 1\<rparr>"
  have inside: "pos (stream w) \<le> length (buf (stream w))" using assms(1) by (simp add: tail_inv_def)
  obtain o1 t1 s1 where t: "DeltaRLEWriter_tput (take CHUNK_SIZE (ts_writebuf ?w1)) (ts_stream w) (stream w) = (o1, t1, s1)"
    by (metis prod_cases3)
  obtain o2 v2 s2 where vv: "FcmStreamWriter_tput (take CHUNK_SIZE (val_writebuf ?w1)) (val_stream w) s1 = (o2, v2, s2)"
    by (metis prod_cases3)
  have f1: "stream_frame (stream w) s1"
    using DeltaRLEWriter_tput_frame [OF inside, of "take CHUNK_SIZE (ts_writebuf ?w1)" "ts_stream w"] t by simp
  then have "stream_frame s1 s2"
    using FcmStreamWriter_tput_frame [of s1 "take CHUNK_SIZE (val_writebuf ?w1)" "val_stream w"] vv
    by (simp add: stream_frame_inside)
  with f1 have f2: "stream_frame (stream w) s2" by (rule stream_frame_trans)
  have f0: "stream_frame (stream w) (stream w)" using inside by (rule stream_frame_refl)
  from assms(2) True t vv have "stream_frame (stream w) (stream w') \<and> ptail_size w' = ptail_size w"
    using f0 f1 f2
    by (auto simp: DataBlockWriter_put_def Let_def split: if_splits bool.splits)
  with assms(1) show ?thesis by (intro tail_inv_frame [of w w']) simp_all
next
  case False
  then have low: "space_left (stream w) < 304"
    by (simp add: room_for_chunk_def Let_def split: if_splits)
  from assms(1) have inv: "14 \<le> pos (stream w)" "pos (stream w) \<le> length (buf (stream w))"
    "ptail_size w = 4"
    "header_tail_size (buf (stream w)) = 0
        \<or> 16 * unat (header_tail_size (buf (stream w))) + space_left (stream w) \<le> 303"
    by (simp_all add: tail_inv_def)
  obtain o1 s1 where p1: "put_raw_u64 ts (stream w) = (o1, s1)" by (cases "put_raw_u64 ts (stream w)")
  obtain o2 s2 where p2: "put_raw_u64 v s1 = (o2, s2)" by (cases "put_raw_u64 v s1")
  from put_raw_u64_result [OF p1 inv(2)]
  have f1: "stream_frame (stream w) s1" and n1: "o1 \<longrightarrow> pos s1 = pos (stream w) + 8" by simp_all
  from put_raw_u64_result [OF p2 stream_frame_inside [OF f1]]
  have f12: "stream_frame s1 s2" and n2: "o2 \<longrightarrow> pos s2 = pos s1 + 8" by simp_all
  from f1 f12 have f2: "stream_frame (stream w) s2" by (rule stream_frame_trans)
  show ?thesis
  proof (cases "o1 \<and> o2")
    case False
    with assms(2) \<open>\<not> room_for_chunk w\<close> p1 p2
    have "(stream w' = s1 \<or> stream w' = s2) \<and> ptail_size w' = ptail_size w"
      by (auto simp: DataBlockWriter_put_def Let_def split: if_splits bool.splits)
    with f1 f2 have "stream_frame (stream w) (stream w') \<and> ptail_size w' = ptail_size w" by auto
    with assms(1) show ?thesis by (intro tail_inv_frame [of w w']) simp_all
  next
    case True
    with assms(2) \<open>\<not> room_for_chunk w\<close> p1 p2 inv(3)
    have w': "stream w' = s2\<lparr>buf := incr_u16_at 4 (buf s2)\<rparr>" "ptail_size w' = 4"
      by (auto simp: DataBlockWriter_put_def Let_def split: if_splits bool.splits)
    from f2 have fr: "length (buf s2) = length (buf (stream w))" "pos s2 \<le> length (buf s2)"
      "take (pos (stream w)) (buf s2) = take (pos (stream w)) (buf (stream w))"
      by (simp_all add: stream_frame_def)
    from True n1 n2 have pos2: "pos s2 = pos (stream w) + 16" by simp
    have six: "6 \<le> length (buf s2)" using fr(2) pos2 inv(1) by simp
    have h2: "header_tail_size (buf s2) = header_tail_size (buf (stream w))"
      using fr(3) inv(1) by (intro header_tail_size_frame [of "pos (stream w)"]) simp_all
    let ?h = "header_tail_size (buf (stream w))"
    have h': "header_tail_size (buf (stream w')) = ?h + 1"
      and len': "length (buf (stream w')) = length (buf (stream w))"
      using header_tail_size_incr [OF six] h2 fr(1) by (simp_all add: w')
    have small: "unat ?h \<le> 18" using inv(4) by auto
    then have un: "unat (?h + 1) = unat ?h + 1"
      by (simp add: unat_word_ariths)
    have pos': "pos (stream w') = pos (stream w) + 16" using pos2 by (simp add: w')
    have inside': "pos (stream w') \<le> length (buf (stream w'))"
      using fr(1,2) pos2 len' pos' by simp
    have sp: "space_left (stream w') + 16 = space_left (stream w)"
      using pos' inside' len' by (simp add: space_left_def)
    have "16 * unat (?h + 1) + space_left (stream w') \<le> 303"
      using inv(4) low sp un by (auto simp: unat_eq_zero)
    then have "16 * unat (header_tail_size (buf (stream w'))) + space_left (stream w') \<le> 303"
      by (simp only: h')
    then show ?thesis
      unfolding tail_inv_def using inv(1) pos' inside' w'(2) by simp
  qed
qed

lemma DataBlockWriter_new_tail_inv:
  assumes "DataBlockWriter_new ver pk series buffer = Inr w0" and "header_tail_size buffer = 0"
  shows "tail_inv w0"
proof -
  from assms(1) have len: "14 \<le> length buffer"
    by (auto simp: DataBlockWriter_new_def Let_def put_raw_u16_def put_raw_u64_def put_bytes_def
        allocate_def space_left_def split: if_splits prod.splits option.splits)
  let ?s3 = "\<lparr>buf = store_bytes 0 (le_bytes 2 ver) buffer, pos = 6\<rparr>"
  have "put_raw_u16 ver \<lparr>buf = buffer, pos = 0\<rparr>
          = (True, \<lparr>buf = store_bytes 0 (le_bytes 2 ver) buffer, pos = 2\<rparr>)"
    using len by (simp add: put_raw_u16_def put_bytes_def space_left_def)
  moreover have "allocate 2 \<lparr>buf = store_bytes 0 (le_bytes 2 ver) buffer, pos = 2\<rparr>
          = (Some 2, \<lparr>buf = store_bytes 0 (le_bytes 2 ver) buffer, pos = 4\<rparr>)"
    using len by (simp add: allocate_def space_left_def)
  moreover have "allocate 2 \<lparr>buf = store_bytes 0 (le_bytes 2 ver) buffer, pos = 4\<rparr>
          = (Some 4, ?s3)"
    using len by (simp add: allocate_def space_left_def)
  moreover have "put_raw_u64 series ?s3 = (True, append_bytes (le_bytes 8 series) ?s3)"
    using len by (simp add: put_raw_u64_def put_bytes_eq space_left_def)
  ultimately have w0: "stream w0 = append_bytes (le_bytes 8 series) ?s3" "ptail_size w0 = 4"
    using assms(1) by (auto simp: DataBlockWriter_new_def Let_def)
  have "header_tail_size (buf (stream w0)) = header_tail_size (buf ?s3)"
    using len by (intro header_tail_size_frame [of 6]) (simp_all add: w0 append_bytes_def store_bytes_def)
  also have "\<dots> = header_tail_size buffer"
    using len by (simp add: header_tail_size_def load_bytes_def store_bytes_def)
  finally have "header_tail_size (buf (stream w0)) = 0" using assms(2) by simp
  then show ?thesis using len by (simp add: tail_inv_def w0 append_bytes_def store_bytes_def)
qed

lemma put_many_tail_inv:
  "tail_inv w \<Longrightarrow> put_many ndebug samples w = Inr (sts, w') \<Longrightarrow> tail_inv w'"
proof (induction samples arbitrary: w sts)
  case Nil
  then show ?case by simp
next
  case (Cons x samples)
  obtain ts v where x: "x = (ts, v)" by (cases x)
  from Cons.prems(2) obtain st w1 sts1 where
    put: "DataBlockWriter_put ndebug ts v w = Inr (st, w1)"
    and rest: "put_many ndebug samples w1 = Inr (sts1, w')"
    by (auto simp: x split: sum.splits)
  from Cons.prems(1) put have "tail_inv w1" by (rule DataBlockWriter_put_tail_inv)
  then show ?case using rest by (rule Cons.IH)
qed

text \<open>C4, as the code has it: over a buffer whose tail field is zero when the writer is made
  (the constructor reserves the field and does not write it), the tail count in the header
  is at most 18 after every sequence of puts and after \<open>close()\<close>, with the assertions
  compiled in or out: the first tail sample is written when fewer than 304 bytes are left,
  and every tail sample takes 16 of them.\<close>

theorem tail_size_bound:
  assumes "header_tail_size buffer = 0"
    and "run_report (block_run ndebug akumuli_version pk series buffer samples)
           = Inr (sts, p, main_size, tail_size, pmain)"
  shows "unat tail_size \<le> 18"
proof -
  from assms(2) obtain w0 w where
    new: "DataBlockWriter_new akumuli_version pk series buffer = Inr w0"
    and run: "put_many ndebug samples w0 = Inr (sts, w)"
    and tail: "tail_size = header_tail_size (buf (stream w))"
    by (auto simp: run_report_def block_run_def block_report_def DataBlockWriter_close_def
        split: sum.splits)
  from new assms(1) have "tail_inv w0" by (rule DataBlockWriter_new_tail_inv)
  then have "tail_inv w" using run by (rule put_many_tail_inv)
  then show ?thesis by (auto simp: tail_inv_def tail)
qed

section \<open>Properties of the block writer\<close>

text \<open>C2 fails on the code: after the sixteen puts of an exact chunk, which all return
  success and flush one chunk, \<open>main_size\<close> in the header is still 0. The statement
  \<open>pmain_size_ += CHUNK_SIZE\<close> moved the pointer (to offset 34) and wrote nothing; \<open>close()\<close> does
  nothing.\<close>

theorem main_size_not_incremented:
  "run_report (exact_chunk_run True) = Inr (replicate 16 AKU_SUCCESS, 45, 0, 0, 2 + 2 * 16)"
  by code_simp

lemma seventeen_report:
  "run_report (block_run True 1 UseFcm 1 (replicate 317 0) seventeen)
     = Inr (replicate 17 AKU_SUCCESS, 14 + 17 * 16, 0, 17, 2)"
  by code_simp

text \<open>C4, as the claim states it, fails on the code compiled with \<open>NDEBUG\<close>: seventeen samples
  put into a buffer that has less than the margin left all go to the tail, and the header
  records 17, which is not below \<open>CHUNK_SIZE\<close>.\<close>

theorem tail_size_counterexample:
  "run_report (block_run True 1 UseFcm 1 (replicate 317 0) seventeen)
     = Inr (replicate 17 AKU_SUCCESS, 14 + 17 * 16, 0, 17, 2)
   \<and> \<not> unat (17 :: u16) < CHUNK_SIZE"
  by (simp add: seventeen_report CHUNK_SIZE_def)

theorem tail_size_bound_witness:
  "header_tail_size (replicate 317 0) = 0
   \<and> run_report (block_run True 1 UseFcm 1 (replicate 317 0) seventeen)
       = Inr (replicate 17 AKU_SUCCESS, 14 + 17 * 16, 0, 17, 2)
   \<and> unat (17 :: u16) \<le> 18"
proof -
  have zero: "header_tail_size (replicate 317 0) = 0"
    by code_simp
  from tail_size_bound [OF zero seventeen_report] zero seventeen_report show ?thesis
    by blast
qed

text \<open>With the assertions compiled in, the second tail sample ends the run: the first one has
  advanced \<open>write_index\<close>, which the assertion wants to be a multiple of \<open>CHUNK_SIZE\<close>.\<close>

lemma tail_assert_fails:
  "run_report (block_run False 1 UseFcm 1 (replicate 317 0) seventeen) = Inl AssertFailed"
  by code_simp

section \<open>Properties of decode\_block and encode\_block\<close>

lemma read_header:
  assumes "14 \<le> length buffer"
  shows "\<exists>r1 r2 r3 nitems series.
           read_raw_u16 buffer = Inr (from_le (take 2 buffer), r1)
         \<and> read_raw_u32 r1 = Inr (nitems, r2) \<and> read_raw_u64 r2 = Inr (series, r3)"
proof -
  from assms have "\<not> length buffer < 2" "\<not> length buffer - 2 < 4" "\<not> length buffer - 6 < 8"
    by arith+
  then show ?thesis
    by (simp add: read_raw_u16_def read_raw_u32_def read_raw_u64_def read_bytes_def)
qed

text \<open>C5, as the code has it: a buffer that holds a header and whose version field is not the
  current version makes \<open>decode_block\<close> panic ("version mismatch"); no status is returned, and
  the destination is as it was.\<close>

theorem decode_block_version_mismatch:
  assumes "14 \<le> length buffer" and "from_le (take 2 buffer) \<noteq> akumuli_version"
  shows "decode_block akumuli_version pk buffer dest = Inl (Panic ''version mismatch'', dest)"
proof -
  from read_header [OF assms(1)] obtain r1 r2 r3 nitems series where
    "read_raw_u16 buffer = Inr (from_le (take 2 buffer), r1)"
    "read_raw_u32 r1 = Inr (nitems, r2)" "read_raw_u64 r2 = Inr (series, r3)"
    by blast
  with assms(2) show ?thesis by (simp add: decode_block_def)
qed

theorem decode_block_version_mismatch_witness:
  "14 \<le> length (replicate 14 (0 :: u8)) \<and> from_le (take 2 (replicate 14 (0 :: u8))) \<noteq> (1 :: u16)
   \<and> decode_block 1 UseFcm (replicate 14 0) (blank_slice 2) = Inl (Panic ''version mismatch'', blank_slice 2)"
proof -
  have len: "14 \<le> length (replicate 14 (0 :: u8))" by simp
  have ver: "from_le (take 2 (replicate 14 (0 :: u8))) \<noteq> (1 :: u16)" by code_simp
  from decode_block_version_mismatch [OF len ver] len ver show ?thesis by blast
qed

text \<open>C5, as the claim states it, fails: on a header of version 0, where the current version
  is 1, \<open>decode_block\<close> does not return the bad-data status.\<close>

theorem decode_block_version_counterexample:
  "decode_block 1 UseFcm (replicate 14 0) (blank_slice 2) \<noteq> Inr (AKU_EBAD_DATA, blank_slice 2)
   \<and> isl (decode_block 1 UseFcm (replicate 14 0) (blank_slice 2))"
  by code_simp

text \<open>C9 fails on the code: in a buffer of 24 bytes the second value of \<open>cut_slice\<close> does not
  fit, \<open>put\<close> fails after the control byte and the first residual have been written, the
  \<open>break\<close> leaves the \<open>for\<close> loop only, \<open>commit\<close> then finds room for its padded group, and the
  count field is set to 2. The block cannot be decoded: the reader runs out of bytes in the
  second value.\<close>

theorem encode_block_count_after_failed_put:
  "encode_block 1 UseFcm cut_slice (replicate 24 0)
     = Inr (AKU_SUCCESS, cut_slice\<lparr>slice_offset := 2\<rparr>,
            [1, 0, 2, 0, 0, 0, 42, 0, 0, 0, 0, 0, 0, 0, 1, 232, 7, 1, 1, 7, 1, 0, 1, 0])
   \<and> decode_block 1 UseFcm
        [1, 0, 2, 0, 0, 0, 42, 0, 0, 0, 0, 0, 0, 0, 1, 232, 7, 1, 1, 7, 1, 0, 1, 0] (blank_slice 2)
     = Inl (StreamOutOfBounds, (blank_slice 2)\<lparr>slice_id := 42, slice_ts := [1000, 1001], slice_value := [1, 0]\<rparr>)"
  by code_simp

section \<open>Properties of encode\_chunk\<close>

lemma put_all_minmax_fold:
  "\<exists>wstream' stream'. put_all_minmax tss mints maxts wstream strm
     = (fold (\<lambda>ts m. min m ts) tss mints, fold (\<lambda>ts m. max m ts) tss maxts, wstream', stream')"
proof (induction tss arbitrary: mints maxts wstream strm)
  case Nil
  show ?case by simp
next
  case (Cons ts tss)
  obtain ok w1 s1 where "DeltaRLEWriter_put ts wstream strm = (ok, w1, s1)" by (metis prod_cases3)
  then show ?case using Cons [of "min mints ts" "max maxts ts" w1 s1] by simp
qed

lemma fold_min_Min:
  fixes m :: "'a :: linorder"
  shows "fold (\<lambda>x m. min m x) xs m = Min (insert m (set xs))"
proof (induction xs arbitrary: m)
  case Nil
  show ?case by simp
next
  case (Cons x xs)
  have "Min (insert (min m x) (set xs)) = Min (insert m (insert x (set xs)))"
    by (cases "set xs = {}") (simp_all add: min.assoc)
  then show ?case by (simp add: Cons)
qed

lemma fold_max_Max:
  fixes m :: "'a :: linorder"
  shows "fold (\<lambda>x m. max m x) xs m = Max (insert m (set xs))"
proof (induction xs arbitrary: m)
  case Nil
  show ?case by simp
next
  case (Cons x xs)
  have "Max (insert (max m x) (set xs)) = Max (insert m (insert x (set xs)))"
    by (cases "set xs = {}") (simp_all add: max.assoc)
  then show ?case by (simp add: Cons)
qed

text \<open>C8: when \<open>encode_chunk\<close> returns (it writes its length prefixes through handles it does
  not test, so it needs room for them) and the timestamps, of which there is at least one, lie
  between \<open>AKU_MIN_TIMESTAMP\<close> and \<open>AKU_MAX_TIMESTAMP\<close>, then \<open>ts_begin\<close> is the least and \<open>ts_end\<close>
  the greatest timestamp of the chunk.\<close>

theorem encode_chunk_ts_range:
  assumes "encode_chunk aku_min_timestamp aku_max_timestamp pk available_space writer_commit data
             = Inr (status, n_elements, ts_begin, ts_end, stream')"
    and "timestamps data \<noteq> []"
    and "\<forall>ts \<in> set (timestamps data). aku_min_timestamp \<le> ts \<and> ts \<le> aku_max_timestamp"
  shows "ts_begin = Min (set (timestamps data)) \<and> ts_end = Max (set (timestamps data))"
proof -
  have fin: "finite (set (timestamps data))" and ne: "set (timestamps data) \<noteq> {}"
    using assms(2) by simp_all
  have mm: "\<exists>wstream' stream''. put_all_minmax (timestamps data) aku_max_timestamp aku_min_timestamp wstream strm
      = (Min (insert aku_max_timestamp (set (timestamps data))),
         Max (insert aku_min_timestamp (set (timestamps data))), wstream', stream'')" for wstream strm
    using put_all_minmax_fold [of "timestamps data" aku_max_timestamp aku_min_timestamp wstream strm]
    by (simp add: fold_min_Min fold_max_Max)
  have lo: "Min (insert aku_max_timestamp (set (timestamps data))) = Min (set (timestamps data))"
  proof -
    have "Min (set (timestamps data)) \<in> set (timestamps data)" using fin ne by (rule Min_in)
    then have "Min (set (timestamps data)) \<le> aku_max_timestamp" using assms(3) by blast
    then show ?thesis using fin ne by (simp add: min_absorb2)
  qed
  have hi: "Max (insert aku_min_timestamp (set (timestamps data))) = Max (set (timestamps data))"
  proof -
    have "Max (set (timestamps data)) \<in> set (timestamps data)" using fin ne by (rule Max_in)
    then have "aku_min_timestamp \<le> Max (set (timestamps data))" using assms(3) by blast
    then show ?thesis using fin ne by (simp add: max_absorb2)
  qed
  have "\<exists>wstream strm wstream' strm'.
      put_all_minmax (timestamps data) aku_max_timestamp aku_min_timestamp wstream strm
        = (ts_begin, ts_end, wstream', strm')"
    using assms(1) unfolding encode_chunk_def Let_def
    by (simp split: prod.splits sum.splits option.splits) blast
  then obtain wstream strm wstream' strm' where
    "put_all_minmax (timestamps data) aku_max_timestamp aku_min_timestamp wstream strm
        = (ts_begin, ts_end, wstream', strm')"
    by blast
  with mm [of wstream strm] lo hi show ?thesis by auto
qed

theorem encode_chunk_ts_range_witness:
  "encode_chunk 0 (- 1) UseFcm (replicate 48 0) (\<lambda>n. AKU_SUCCESS) two_rows
     = Inr (AKU_SUCCESS, 2, 10, 30,
         \<lparr>buf = [4, 0, 0, 0, 1, 7, 1, 0, 13, 0, 0, 0, 1, 30, 1, 236, 255, 255, 255, 255, 255, 255,
                  255, 255, 1, 1, 0, 0, 0, 2, 0, 0, 0, 0, 0, 0, 0, 0, 0, 0],
            pos = 36\<rparr>)
   \<and> timestamps two_rows = [30, 10]
   \<and> (0 :: u64) \<le> 30 \<and> (30 :: u64) \<le> - 1 \<and> (0 :: u64) \<le> 10 \<and> (10 :: u64) \<le> - 1
   \<and> 10 = Min (set (timestamps two_rows)) \<and> 30 = Max (set (timestamps two_rows))"
proof -
  have run: "encode_chunk 0 (- 1) UseFcm (replicate 48 0) (\<lambda>n. AKU_SUCCESS) two_rows
     = Inr (AKU_SUCCESS, 2, 10, 30,
         \<lparr>buf = [4, 0, 0, 0, 1, 7, 1, 0, 13, 0, 0, 0, 1, 30, 1, 236, 255, 255, 255, 255, 255, 255,
                  255, 255, 1, 1, 0, 0, 0, 2, 0, 0, 0, 0, 0, 0, 0, 0, 0, 0],
            pos = 36\<rparr>)"
    by code_simp
  have ne: "timestamps two_rows \<noteq> []"
    by (simp add: two_rows_def)
  have range: "\<forall>ts \<in> set (timestamps two_rows). 0 \<le> ts \<and> ts \<le> - 1"
    by simp
  have rows: "timestamps two_rows = [30, 10]"
    by (simp add: two_rows_def)
  have bounds: "(0 :: u64) \<le> 30 \<and> (30 :: u64) \<le> - 1 \<and> (0 :: u64) \<le> 10 \<and> (10 :: u64) \<le> - 1"
    by simp
  from encode_chunk_ts_range [OF run ne range] run rows bounds show ?thesis
    by blast
qed

section \<open>Properties of the timestamp codec\<close>

lemma u8_top_bit: "(ucast (v :: u64) OR 128 :: u8) \<ge> 128"
  by (metis le_word_or2 or.commute)

lemma bit_128: "bit (128 :: u8) n \<longleftrightarrow> n = 7"
proof -
  have "(128 :: u8) = 2 ^ 7" by simp
  then show ?thesis by (simp only: bit_exp_iff) auto
qed

lemma u8_low:
  assumes "v < 128"
  shows "(ucast (v :: u64) :: u8) < 128"
proof -
  from assms have "v < 2 ^ 7" by simp
  then have "v AND mask 7 = v" by (rule less_mask_eq)
  then have v: "take_bit 7 v = v" by (simp add: take_bit_eq_mask)
  have "(ucast v :: u8) = ucast v AND mask 7"
  proof (rule bit_word_eqI)
    fix n assume "n < LENGTH(8)"
    then show "bit (ucast v :: u8) n \<longleftrightarrow> bit (ucast v AND mask 7 :: u8) n"
      using bit_take_bit_iff [of 7 v n] v by (auto simp: bit_simps)
  qed
  moreover have "(ucast v AND mask 7 :: u8) < 2 ^ 7" by (rule and_mask_less') simp
  ultimately show ?thesis by simp
qed

lemma base128_small: "v < 128 \<Longrightarrow> (ucast (ucast (v :: u64) :: u8) :: u64) = v"
proof -
  assume "v < 128"
  then have "v < 2 ^ 7" by simp
  then have "v AND mask 7 = v" by (rule less_mask_eq)
  then have v: "take_bit 7 v = v" by (simp add: take_bit_eq_mask)
  show ?thesis
  proof (rule bit_word_eqI)
    fix n assume "n < LENGTH(64)"
    then show "bit (ucast (ucast v :: u8) :: u64) n \<longleftrightarrow> bit v n"
      using bit_take_bit_iff [of 7 v n] v by (auto simp: bit_simps)
  qed
qed

lemma base128_join:
  "(ucast ((ucast (v :: u64) OR 128 :: u8) AND 127) :: u64) OR push_bit 7 (drop_bit 7 v) = v"
proof -
  have m: "(127 :: u8) = mask 7" by (simp add: mask_eq_exp_minus_1)
  have low: "(ucast ((ucast v OR 128 :: u8) AND 127) :: u64) = take_bit 7 v"
    unfolding m
  proof (rule bit_word_eqI)
    fix n assume "n < LENGTH(64)"
    show "bit (ucast ((ucast v OR 128 :: u8) AND mask 7) :: u64) n \<longleftrightarrow> bit (take_bit 7 v) n"
      using bit_128 [of n] by (cases "n < 7") (auto simp: bit_simps)
  qed
  show ?thesis
    unfolding low
  proof (rule bit_word_eqI)
    fix n assume "n < LENGTH(64)"
    then show "bit (take_bit 7 v OR push_bit 7 (drop_bit 7 v)) n \<longleftrightarrow> bit v n"
      by (cases "n < 7") (auto simp: bit_simps)
  qed
qed

lemma get_base128_base128: "get_base128 (base128 v @ rest) = Inr (v, rest)"
proof (induction v rule: base128.induct)
  case (1 v)
  show ?case
  proof (cases "v < 128")
    case True
    then show ?thesis by (subst base128.simps) (simp add: u8_low base128_small)
  next
    case False
    have "\<not> (ucast v OR 128 :: u8) < 128" using u8_top_bit [of v] by (simp add: not_less)
    with False 1 show ?thesis by (subst base128.simps) (simp add: base128_join)
  qed
qed

lemma put_base128_eq:
  "pos w + length (base128 v) \<le> length (buf w) \<Longrightarrow> put_base128 v w = (True, append_bytes (base128 v) w)"
  by (simp add: put_base128_def put_bytes_eq space_left_def)

lemma DeltaRLEWriter_flush_eq:
  assumes "pos w + length (flush_bytes (dw_run t) (dw_reps t)) \<le> length (buf w)"
  shows "DeltaRLEWriter_flush t w = (True, t\<lparr>dw_reps := 0\<rparr>, append_bytes (flush_bytes (dw_run t) (dw_reps t)) w)"
proof (cases "dw_reps t = 0")
  case True
  then have "t\<lparr>dw_reps := 0\<rparr> = t" by simp
  with True assms show ?thesis by (simp add: DeltaRLEWriter_flush_def flush_bytes_def)
next
  case False
  with assms have room: "pos w + length (base128 (dw_reps t)) + length (base128 (dw_run t)) \<le> length (buf w)"
    by (simp add: flush_bytes_def)
  then have 1: "put_base128 (dw_reps t) w = (True, append_bytes (base128 (dw_reps t)) w)"
    by (intro put_base128_eq) simp
  have 2: "put_base128 (dw_run t) (append_bytes (base128 (dw_reps t)) w)
      = (True, append_bytes (base128 (dw_run t)) (append_bytes (base128 (dw_reps t)) w))"
    using room by (intro put_base128_eq) simp
  have "append_bytes (base128 (dw_run t)) (append_bytes (base128 (dw_reps t)) w)
      = append_bytes (base128 (dw_reps t) @ base128 (dw_run t)) w"
    using room by (rule append_bytes_append)
  with False 1 2 show ?thesis by (simp add: DeltaRLEWriter_flush_def flush_bytes_def)
qed

lemma DeltaRLEWriter_commit_eq:
  assumes "pos w + length (flush_bytes (dw_run t) (dw_reps t)) \<le> length (buf w)"
  shows "DeltaRLEWriter_commit t w = (True, t\<lparr>dw_reps := 0\<rparr>, append_bytes (flush_bytes (dw_run t) (dw_reps t)) w)"
  using DeltaRLEWriter_flush_eq [OF assms] by (simp add: DeltaRLEWriter_commit_def stream_commit_def)

lemma DeltaRLEWriter_puts:
  assumes "pos w + length (rle_bytes (dw_run t) (dw_reps t) (dw_prev t) vs) \<le> length (buf w)"
  shows "\<exists>t' front.
           put_timestamps vs t w = (t', append_bytes front w)
         \<and> DeltaRLEWriter_tput vs t w = DeltaRLEWriter_commit t' (append_bytes front w)
         \<and> rle_bytes (dw_run t) (dw_reps t) (dw_prev t) vs = front @ flush_bytes (dw_run t') (dw_reps t')
         \<and> dw_prev t' = last (dw_prev t # vs)
         \<and> dw_run t' = rle_run (dw_run t) (dw_prev t) vs"
  using assms
proof (induction vs arbitrary: t w)
  case Nil
  have "append_bytes [] w = w" using Nil by (intro append_bytes_Nil) simp
  then show ?case
    by (intro exI [of _ t] exI [of _ "[]"]) simp
next
  case (Cons v vs)
  let ?delta = "v - dw_prev t"
  show ?case
  proof (cases "?delta \<noteq> dw_run t")
    case True
    let ?fb = "flush_bytes (dw_run t) (dw_reps t)"
    let ?t1 = "t\<lparr>dw_reps := 0, dw_prev := v, dw_run := ?delta, dw_reps := 1\<rparr>"
    let ?w1 = "append_bytes ?fb w"
    from Cons.prems True
    have room: "pos w + length ?fb + length (rle_bytes ?delta 1 v vs) \<le> length (buf w)"
      by simp
    then have "pos w + length ?fb \<le> length (buf w)" by simp
    from DeltaRLEWriter_flush_eq [OF this] True
    have put: "DeltaRLEWriter_put v t w = (True, ?t1, ?w1)"
      by (simp add: DeltaRLEWriter_put_def Let_def)
    have "pos ?w1 + length (rle_bytes (dw_run ?t1) (dw_reps ?t1) (dw_prev ?t1) vs) \<le> length (buf ?w1)"
      using room by simp
    from Cons.IH [OF this] obtain t' front where
      ih: "put_timestamps vs ?t1 ?w1 = (t', append_bytes front ?w1)"
        "DeltaRLEWriter_tput vs ?t1 ?w1 = DeltaRLEWriter_commit t' (append_bytes front ?w1)"
        "rle_bytes ?delta 1 v vs = front @ flush_bytes (dw_run t') (dw_reps t')"
        "dw_prev t' = last (v # vs)" "dw_run t' = rle_run ?delta v vs"
      by auto
    have "pos w + length ?fb + length front \<le> length (buf w)"
      using room ih(3) by simp
    then have "append_bytes front ?w1 = append_bytes (?fb @ front) w"
      by (rule append_bytes_append)
    with ih put True show ?thesis
      by (intro exI [of _ t'] exI [of _ "?fb @ front"]) simp
  next
    case False
    let ?t1 = "t\<lparr>dw_prev := v, dw_reps := dw_reps t + 1\<rparr>"
    from False have put: "DeltaRLEWriter_put v t w = (True, ?t1, w)"
      by (simp add: DeltaRLEWriter_put_def Let_def)
    have "pos w + length (rle_bytes (dw_run ?t1) (dw_reps ?t1) (dw_prev ?t1) vs) \<le> length (buf w)"
      using Cons.prems False by simp
    from Cons.IH [OF this] obtain t' front where
      ih: "put_timestamps vs ?t1 w = (t', append_bytes front w)"
        "DeltaRLEWriter_tput vs ?t1 w = DeltaRLEWriter_commit t' (append_bytes front w)"
        "rle_bytes (dw_run t) (dw_reps t + 1) v vs = front @ flush_bytes (dw_run t') (dw_reps t')"
        "dw_prev t' = last (v # vs)" "dw_run t' = rle_run (dw_run t) v vs"
      by auto
    with put False show ?thesis
      by (intro exI [of _ t'] exI [of _ front]) simp
  qed
qed

text \<open>A batch, or the tail followed by a commit: the writer ends with no run open.\<close>

lemma DeltaRLEWriter_batch:
  assumes "pos w + length (rle_bytes (dw_run t) (dw_reps t) (dw_prev t) vs) \<le> length (buf w)"
  shows "\<exists>t'. DeltaRLEWriter_tput vs t w
                = (True, t', append_bytes (rle_bytes (dw_run t) (dw_reps t) (dw_prev t) vs) w)
            \<and> (case put_timestamps vs t w of (t1, w1) \<Rightarrow> DeltaRLEWriter_commit t1 w1)
                = (True, t', append_bytes (rle_bytes (dw_run t) (dw_reps t) (dw_prev t) vs) w)
            \<and> dw_reps t' = 0 \<and> dw_prev t' = last (dw_prev t # vs)
            \<and> dw_run t' = rle_run (dw_run t) (dw_prev t) vs"
proof -
  from DeltaRLEWriter_puts [OF assms] obtain t1 front where
    p: "put_timestamps vs t w = (t1, append_bytes front w)"
      "DeltaRLEWriter_tput vs t w = DeltaRLEWriter_commit t1 (append_bytes front w)"
      "rle_bytes (dw_run t) (dw_reps t) (dw_prev t) vs = front @ flush_bytes (dw_run t1) (dw_reps t1)"
      "dw_prev t1 = last (dw_prev t # vs)" "dw_run t1 = rle_run (dw_run t) (dw_prev t) vs"
    by blast
  have room: "pos w + length front + length (flush_bytes (dw_run t1) (dw_reps t1)) \<le> length (buf w)"
    using assms p(3) by simp
  then have "pos (append_bytes front w) + length (flush_bytes (dw_run t1) (dw_reps t1))
      \<le> length (buf (append_bytes front w))"
    by simp
  from DeltaRLEWriter_commit_eq [OF this]
  have "DeltaRLEWriter_commit t1 (append_bytes front w)
      = (True, t1\<lparr>dw_reps := 0\<rparr>,
         append_bytes (flush_bytes (dw_run t1) (dw_reps t1)) (append_bytes front w))" .
  also have "append_bytes (flush_bytes (dw_run t1) (dw_reps t1)) (append_bytes front w)
      = append_bytes (rle_bytes (dw_run t) (dw_reps t) (dw_prev t) vs) w"
    using room p(3) append_bytes_append [of w front "flush_bytes (dw_run t1) (dw_reps t1)"] by simp
  finally show ?thesis
    using p by (intro exI [of _ "t1\<lparr>dw_reps := 0\<rparr>"]) simp
qed

subsection \<open>Arrays written from an index on\<close>

lemma overwrite_Nil [simp]: "at \<le> length d \<Longrightarrow> overwrite at [] d = d"
  by (simp add: overwrite_def)

lemma length_overwrite [simp]:
  "at + length xs \<le> length d \<Longrightarrow> length (overwrite at xs d) = length d"
  by (simp add: overwrite_def)

lemma overwrite_update:
  "at < length d \<Longrightarrow> d[at := x] = overwrite at [x] d"
  by (simp add: overwrite_def upd_conv_take_nth_drop)

lemma overwrite_append:
  assumes "at + length xs + length ys \<le> length d"
  shows "overwrite (at + length xs) ys (overwrite at xs d) = overwrite at (xs @ ys) d"
  using assms by (simp add: overwrite_def ac_simps)

lemma overwrite_Cons:
  assumes "at + Suc (length xs) \<le> length d"
  shows "overwrite (Suc at) xs (d[at := x]) = overwrite at (x # xs) d"
proof -
  have "at < length d" using assms by simp
  then have "d[at := x] = overwrite at [x] d" by (rule overwrite_update)
  then show ?thesis
    using overwrite_append [of at "[x]" xs d] assms by simp
qed

lemma slice_of_overwrite:
  "at + length xs \<le> length d \<Longrightarrow> take (length xs) (drop at (overwrite at xs d)) = xs"
  by (simp add: overwrite_def)

subsection \<open>Reading timestamps\<close>

text \<open>Inside a run the reader does not touch the stream.\<close>

lemma DeltaRLEReader_next_in_run:
  "dr_reps r \<noteq> 0 \<Longrightarrow>
   DeltaRLEReader_next r s
     = Inr (dr_prev r + dr_run r, r\<lparr>dr_prev := dr_prev r + dr_run r, dr_reps := dr_reps r - 1\<rparr>, s)"
  by (simp add: DeltaRLEReader_next_def Let_def)

lemma DeltaRLEReader_next_new_run:
  "dr_reps r = 0 \<Longrightarrow>
   DeltaRLEReader_next r (base128 reps @ base128 run @ s)
     = Inr (dr_prev r + run, r\<lparr>dr_run := run, dr_prev := dr_prev r + run, dr_reps := reps - 1\<rparr>, s)"
  by (simp add: DeltaRLEReader_next_def Let_def get_base128_base128)

lemma length_run_values [simp]: "length (run_values p run n) = n"
  by (induction n arbitrary: p) simp_all

lemma run_values_snoc:
  "run_values p run (Suc n) = run_values p run n @ [last (p # run_values p run n) + run]"
proof (induction n arbitrary: p)
  case 0
  then show ?case by simp
next
  case (Suc n)
  have "run_values p run (Suc (Suc n)) = (p + run) # run_values (p + run) run (Suc n)"
    by simp
  also have "\<dots> = (p + run) # (run_values (p + run) run n
                      @ [last ((p + run) # run_values (p + run) run n) + run])"
    by (simp only: Suc.IH)
  also have "\<dots> = run_values p run (Suc n) @ [last (p # run_values p run (Suc n)) + run]"
    by simp
  finally show ?case .
qed

lemma read_timestamps_in_run:
  assumes "n \<le> unat (dr_reps r)" and "at + n \<le> length dest"
  shows "read_timestamps n at r s dest
       = Inr (r\<lparr>dr_prev := last (dr_prev r # run_values (dr_prev r) (dr_run r) n),
                 dr_reps := dr_reps r - of_nat n\<rparr>, s,
              overwrite at (run_values (dr_prev r) (dr_run r) n) dest)"
  using assms
proof (induction n arbitrary: at r dest)
  case 0
  then show ?case by simp
next
  case (Suc n)
  let ?r1 = "r\<lparr>dr_prev := dr_prev r + dr_run r, dr_reps := dr_reps r - 1\<rparr>"
  from Suc.prems(1) have nz: "dr_reps r \<noteq> 0" by (auto simp: unat_eq_zero)
  then have "unat (dr_reps r - 1) = unat (dr_reps r) - 1"
    by (simp add: unat_minus_one)
  with Suc.prems have 1: "n \<le> unat (dr_reps ?r1)" and 2: "Suc at + n \<le> length (dest[at := dr_prev r + dr_run r])"
    by simp_all
  have "overwrite (Suc at) (run_values (dr_prev r + dr_run r) (dr_run r) n)
          (dest[at := dr_prev r + dr_run r])
      = overwrite at ((dr_prev r + dr_run r) # run_values (dr_prev r + dr_run r) (dr_run r) n) dest"
    using Suc.prems(2) by (intro overwrite_Cons) simp
  then show ?case
    using Suc.IH [OF 1 2] nz
    by (simp add: DeltaRLEReader_next_in_run diff_diff_add)
qed

text \<open>A whole run, read from its two values in the stream.\<close>

lemma read_timestamps_run:
  assumes "dr_reps r = 0" and "reps \<noteq> 0" and "at + unat reps \<le> length dest"
  shows "read_timestamps (unat reps) at r (base128 reps @ base128 run @ s) dest
       = Inr (r\<lparr>dr_run := run, dr_prev := last (dr_prev r # run_values (dr_prev r) run (unat reps)),
                 dr_reps := 0\<rparr>, s,
              overwrite at (run_values (dr_prev r) run (unat reps)) dest)"
proof -
  from assms(2) obtain n where n: "unat reps = Suc n"
    by (metis not0_implies_Suc unat_eq_zero)
  let ?r1 = "r\<lparr>dr_run := run, dr_prev := dr_prev r + run, dr_reps := reps - 1\<rparr>"
  have u: "unat (reps - 1) = n" using assms(2) n by (simp add: unat_minus_one)
  then have r0: "reps - 1 - of_nat n = 0"
    by (simp flip: u)
  have 1: "n \<le> unat (dr_reps ?r1)" using u by simp
  have 2: "Suc at + n \<le> length (dest[at := dr_prev r + run])" using assms(3) n by simp
  have "overwrite (Suc at) (run_values (dr_prev r + run) run n) (dest[at := dr_prev r + run])
      = overwrite at ((dr_prev r + run) # run_values (dr_prev r + run) run n) dest"
    using assms(3) n by (intro overwrite_Cons) simp
  then show ?thesis
    using read_timestamps_in_run [OF 1 2, of s] assms(1)
    by (simp add: n DeltaRLEReader_next_new_run r0)
qed

text \<open>Reading \<open>a + b\<close> timestamps is reading \<open>a\<close> and then \<open>b\<close>.\<close>

lemma read_timestamps_add:
  "read_timestamps (a + b) at r s dest
     = (case read_timestamps a at r s dest of
          Inl e \<Rightarrow> Inl e
        | Inr (r1, s1, d1) \<Rightarrow> read_timestamps b (at + a) r1 s1 d1)"
proof (induction a arbitrary: at r s dest)
  case 0
  then show ?case by simp
next
  case (Suc a)
  show ?case
    by (cases "DeltaRLEReader_next r s") (auto simp: Suc.IH split: sum.splits prod.splits)
qed

text \<open>The open run, read back when it has been flushed.\<close>

lemma read_timestamps_flush:
  assumes "dr_reps r = 0" and "at + unat reps \<le> length dest"
  shows "\<exists>r'. read_timestamps (unat reps) at r (flush_bytes run reps @ s) dest
               = Inr (r', s, overwrite at (run_values (dr_prev r) run (unat reps)) dest)
            \<and> dr_reps r' = 0
            \<and> dr_prev r' = last (dr_prev r # run_values (dr_prev r) run (unat reps))"
proof (cases "reps = 0")
  case True
  then show ?thesis using assms by (simp add: flush_bytes_def)
next
  case False
  then show ?thesis
    using read_timestamps_run [OF assms(1) False assms(2), of run s]
    by (simp add: flush_bytes_def)
qed

text \<open>A batch of timestamps, read back from its encoded form: the timestamps of the open run
  and then the batch.\<close>

lemma read_timestamps_rle_bytes:
  assumes "dr_reps r = 0"
    and "last (dr_prev r # run_values (dr_prev r) run (unat reps)) = prev"
    and "unat reps + length vs < 2 ^ 64"
    and "at + unat reps + length vs \<le> length dest"
  shows "\<exists>r'. read_timestamps (unat reps + length vs) at r (rle_bytes run reps prev vs @ rest) dest
               = Inr (r', rest, overwrite at (run_values (dr_prev r) run (unat reps) @ vs) dest)
            \<and> dr_reps r' = 0 \<and> dr_prev r' = last (prev # vs)"
  using assms
proof (induction vs arbitrary: run reps prev r at dest)
  case Nil
  then show ?case
    using read_timestamps_flush [of r at reps dest run rest] by simp
next
  case (Cons v vs)
  let ?pending = "run_values (dr_prev r) run (unat reps)"
  show ?case
  proof (cases "v - prev = run")
    case True
    have u: "unat (reps + 1) = Suc (unat reps)"
      using Cons.prems(3) by (simp add: unat_word_ariths unat_arith_simps)
    have pv: "prev + run = v" by (simp flip: True)
    have rv: "run_values (dr_prev r) run (unat (reps + 1)) = ?pending @ [v]"
      unfolding u run_values_snoc Cons.prems(2) pv ..
    have "\<exists>r'. read_timestamps (unat (reps + 1) + length vs) at r
                  (rle_bytes run (reps + 1) v vs @ rest) dest
               = Inr (r', rest, overwrite at (run_values (dr_prev r) run (unat (reps + 1)) @ vs) dest)
            \<and> dr_reps r' = 0 \<and> dr_prev r' = last (v # vs)"
    proof (rule Cons.IH)
      show "dr_reps r = 0" by (rule Cons.prems(1))
      show "last (dr_prev r # run_values (dr_prev r) run (unat (reps + 1))) = v"
        unfolding rv by simp
      show "unat (reps + 1) + length vs < 2 ^ 64" using Cons.prems(3) u by simp
      show "at + unat (reps + 1) + length vs \<le> length dest" using Cons.prems(4) u by simp
    qed
    moreover have "unat reps + length (v # vs) = unat (reps + 1) + length vs"
      using u by simp
    moreover have "rle_bytes run reps prev (v # vs) = rle_bytes run (reps + 1) v vs"
      using True by simp
    moreover have "?pending @ v # vs = run_values (dr_prev r) run (unat (reps + 1)) @ vs"
      unfolding rv by simp
    moreover have "last (prev # v # vs) = last (v # vs)" by simp
    ultimately show ?thesis by (simp only:)
  next
    case False
    from read_timestamps_flush [of r at reps dest run "rle_bytes (v - prev) 1 v vs @ rest"]
      Cons.prems
    obtain r1 where r1: "read_timestamps (unat reps) at r
          (flush_bytes run reps @ rle_bytes (v - prev) 1 v vs @ rest) dest
        = Inr (r1, rle_bytes (v - prev) 1 v vs @ rest, overwrite at ?pending dest)"
      and r1_reps: "dr_reps r1 = 0" and r1_prev: "dr_prev r1 = prev"
      by auto
    have "\<exists>r'. read_timestamps (unat (1 :: u64) + length vs) (at + unat reps) r1
                  (rle_bytes (v - prev) 1 v vs @ rest) (overwrite at ?pending dest)
               = Inr (r', rest, overwrite (at + unat reps)
                        (run_values (dr_prev r1) (v - prev) (unat (1 :: u64)) @ vs)
                        (overwrite at ?pending dest))
            \<and> dr_reps r' = 0 \<and> dr_prev r' = last (v # vs)"
    proof (rule Cons.IH)
      show "dr_reps r1 = 0" by (rule r1_reps)
      show "last (dr_prev r1 # run_values (dr_prev r1) (v - prev) (unat (1 :: u64))) = v"
        by (simp add: r1_prev)
      show "unat (1 :: u64) + length vs < 2 ^ 64" using Cons.prems(3) by simp
      show "at + unat reps + unat (1 :: u64) + length vs \<le> length (overwrite at ?pending dest)"
        using Cons.prems(4) by simp
    qed
    then obtain r' where r': "read_timestamps (Suc (length vs)) (at + unat reps) r1
                  (rle_bytes (v - prev) 1 v vs @ rest) (overwrite at ?pending dest)
               = Inr (r', rest, overwrite (at + unat reps) (v # vs) (overwrite at ?pending dest))"
      and r'_reps: "dr_reps r' = 0" and r'_prev: "dr_prev r' = last (v # vs)"
      by (auto simp: r1_prev simp del: read_timestamps.simps)
    have ow: "overwrite (at + unat reps) (v # vs) (overwrite at ?pending dest)
            = overwrite at (?pending @ v # vs) dest"
      using overwrite_append [of at ?pending "v # vs" dest] Cons.prems(4) by simp
    have b: "rle_bytes run reps prev (v # vs) @ rest
           = flush_bytes run reps @ rle_bytes (v - prev) 1 v vs @ rest"
      using False by simp
    have n: "unat reps + length (v # vs) = unat reps + Suc (length vs)" by simp
    have "read_timestamps (unat reps + length (v # vs)) at r
            (rle_bytes run reps prev (v # vs) @ rest) dest
        = Inr (r', rest, overwrite at (?pending @ v # vs) dest)"
      unfolding b n read_timestamps_add r1 by (simp only: sum.case prod.case r' ow)
    moreover have "last (prev # v # vs) = last (v # vs)" by simp
    ultimately show ?thesis using r'_reps r'_prev by (simp only:) blast
  qed
qed

subsection \<open>Writing and reading values\<close>

lemma predictor_after_simps [simp]:
  "predictor_after pr [] = pr"
  "predictor_after pr (v # vs) = predictor_after (update v pr) vs"
  by (simp_all add: predictor_after_def)

lemma predictor_after_append:
  "predictor_after pr (xs @ ys) = predictor_after (predictor_after pr xs) ys"
  by (simp add: predictor_after_def)

text \<open>A batch of values, or the tail followed by a commit, written by a writer that holds no
  first sample of a group.\<close>

lemma FcmStreamWriter_batch:
  assumes "predictor s = pr" and "even (nelements s)"
    and "pos w + length (fcm_bytes pr vs) \<le> length (buf w)"
  shows "\<exists>s'. FcmStreamWriter_tput vs s w = (True, s', append_bytes (fcm_bytes pr vs) w)
            \<and> (case put_values vs s w of (s1, w1) \<Rightarrow> FcmStreamWriter_commit s1 w1)
                = (True, s', append_bytes (fcm_bytes pr vs) w)
            \<and> predictor s' = predictor_after pr vs
            \<and> nelements s' = nelements s + length vs"
  using assms
proof (induction pr vs arbitrary: s w rule: fcm_bytes.induct)
  case (1 pr)
  then have "append_bytes [] w = w" by (intro append_bytes_Nil) simp
  then show ?case
    using 1 by (simp add: FcmStreamWriter_commit_even)
next
  case (2 pr a)
  let ?da = "a XOR predict_next pr"
  let ?s1 = "s\<lparr>predictor := update a pr, prev_diff := ?da, prev_flag := flag_of_diff ?da,
               nelements := nelements s + 1\<rparr>"
  have put: "FcmStreamWriter_put a s w = (True, ?s1, w)"
    using FcmStreamWriter_put_even [OF "2.prems"(2), of a w] "2.prems"(1) by simp
  have "odd (nelements ?s1)" using "2.prems"(2) by simp
  moreover have "pos w + length (pair_bytes (prev_diff ?s1) (prev_flag ?s1) 0 0) \<le> length (buf w)"
    using "2.prems"(3) by (simp add: Let_def)
  ultimately have "FcmStreamWriter_commit ?s1 w
      = (True, ?s1, append_bytes (pair_bytes (prev_diff ?s1) (prev_flag ?s1) 0 0) w)"
    by (rule FcmStreamWriter_commit_odd)
  then show ?case
    by (intro exI [of _ ?s1]) (simp add: put Let_def)
next
  case (3 pr a b rest)
  let ?da = "a XOR predict_next pr"
  let ?pr1 = "update a pr"
  let ?db = "b XOR predict_next ?pr1"
  let ?pr2 = "update b ?pr1"
  let ?pair = "pair_bytes ?da (flag_of_diff ?da) ?db (flag_of_diff ?db)"
  let ?s1 = "s\<lparr>predictor := ?pr1, prev_diff := ?da, prev_flag := flag_of_diff ?da,
               nelements := nelements s + 1\<rparr>"
  let ?s2 = "?s1\<lparr>predictor := ?pr2, nelements := nelements ?s1 + 1\<rparr>"
  let ?w2 = "append_bytes ?pair w"
  have room: "pos w + length ?pair + length (fcm_bytes ?pr2 rest) \<le> length (buf w)"
    using "3.prems"(3) by (simp add: Let_def)
  have put1: "FcmStreamWriter_put a s w = (True, ?s1, w)"
    using FcmStreamWriter_put_even [OF "3.prems"(2), of a w] "3.prems"(1) by simp
  have odd1: "odd (nelements ?s1)" using "3.prems"(2) by simp
  have "pos w + length (pair_bytes (prev_diff ?s1) (prev_flag ?s1) (b XOR predict_next (predictor ?s1))
            (flag_of_diff (b XOR predict_next (predictor ?s1)))) \<le> length (buf w)"
    using room by simp
  from FcmStreamWriter_put_odd [OF odd1 this]
  have put2: "FcmStreamWriter_put b ?s1 w = (True, ?s2, ?w2)"
    by simp
  have "\<exists>s'. FcmStreamWriter_tput rest ?s2 ?w2 = (True, s', append_bytes (fcm_bytes ?pr2 rest) ?w2)
            \<and> (case put_values rest ?s2 ?w2 of (s1, w1) \<Rightarrow> FcmStreamWriter_commit s1 w1)
                = (True, s', append_bytes (fcm_bytes ?pr2 rest) ?w2)
            \<and> predictor s' = predictor_after ?pr2 rest
            \<and> nelements s' = nelements ?s2 + length rest"
  proof (rule "3.IH" [OF refl refl refl refl])
    show "predictor ?s2 = ?pr2" by simp
    show "even (nelements ?s2)" using "3.prems"(2) by simp
    show "pos ?w2 + length (fcm_bytes ?pr2 rest) \<le> length (buf ?w2)" using room by simp
  qed
  then obtain s' where
    ih: "FcmStreamWriter_tput rest ?s2 ?w2 = (True, s', append_bytes (fcm_bytes ?pr2 rest) ?w2)"
      "(case put_values rest ?s2 ?w2 of (s1, w1) \<Rightarrow> FcmStreamWriter_commit s1 w1)
         = (True, s', append_bytes (fcm_bytes ?pr2 rest) ?w2)"
      "predictor s' = predictor_after ?pr2 rest"
      "nelements s' = nelements ?s2 + length rest"
    by blast
  have ap: "append_bytes (fcm_bytes ?pr2 rest) ?w2 = append_bytes (?pair @ fcm_bytes ?pr2 rest) w"
    using room by (rule append_bytes_append)
  have fb: "fcm_bytes pr (a # b # rest) = ?pair @ fcm_bytes ?pr2 rest"
    by (simp add: Let_def)
  have t: "FcmStreamWriter_tput (a # b # rest) s w = FcmStreamWriter_tput rest ?s2 ?w2"
    by (simp only: FcmStreamWriter_tput.simps put1 put2 prod.case bool.case)
  have v: "put_values (a # b # rest) s w = put_values rest ?s2 ?w2"
    by (simp only: put_values.simps put1 put2 prod.case bool.case)
  have n: "nelements ?s2 + length rest = nelements s + length (a # b # rest)"
    by simp
  have p: "predictor_after ?pr2 rest = predictor_after pr (a # b # rest)"
    by simp
  show ?case
    unfolding fb t v using ih unfolding ap n p by blast
qed

text \<open>The first and the second sample of a group, read back.\<close>

lemma FcmStreamReader_next_first:
  assumes "even (rd_iter s)" and "fb < 16"
  shows "FcmStreamReader_next s
           ((push_bit 4 (flag_of_diff d) OR fb) # value_bytes d (flag_of_diff d) @ rest)
       = Inr (predict_next (rd_predictor s) XOR d,
              s\<lparr>rd_flags := push_bit 4 (flag_of_diff d) OR fb, rd_iter := rd_iter s + 1,
                rd_predictor := update (predict_next (rd_predictor s) XOR d) (rd_predictor s)\<rparr>,
              rest)"
proof -
  have "rd_iter s mod 2 = 0" using assms(1) by presburger
  then show ?thesis
    using nibbles(1) [OF flag_of_diff_lt_16 [of d] assms(2)]
    by (simp add: FcmStreamReader_next_def read_raw_u8_def read_bytes_def decode_value_encoded Let_def
          del: drop_bit_or)
qed

lemma FcmStreamReader_next_second:
  assumes "odd (rd_iter s)" and "fa < 16" and "rd_flags s = push_bit 4 fa OR flag_of_diff d"
  shows "FcmStreamReader_next s (value_bytes d (flag_of_diff d) @ rest)
       = Inr (predict_next (rd_predictor s) XOR d,
              s\<lparr>rd_iter := rd_iter s + 1,
                rd_predictor := update (predict_next (rd_predictor s) XOR d) (rd_predictor s)\<rparr>,
              rest)"
proof -
  have "rd_iter s mod 2 \<noteq> 0" using assms(1) by presburger
  then show ?thesis
    using nibbles(2) [OF assms(2) flag_of_diff_lt_16 [of d]]
    by (simp add: FcmStreamReader_next_def assms(3) decode_value_encoded Let_def)
qed

text \<open>A batch of values, or the tail, read back from its encoded form; of a group that was
  filled up, the residual of the second sample is left in the stream.\<close>

lemma read_values_fcm_bytes:
  assumes "rd_predictor s = pr" and "even (rd_iter s)" and "at + length vs \<le> length dest"
  shows "\<exists>s'. read_values (length vs) at s (fcm_bytes pr vs @ rest) dest
               = Inr (s', (if even (length vs) then [] else [0]) @ rest, overwrite at vs dest)
            \<and> rd_predictor s' = predictor_after pr vs
            \<and> rd_iter s' = rd_iter s + length vs"
  using assms
proof (induction pr vs arbitrary: s at dest rule: fcm_bytes.induct)
  case (1 pr)
  then show ?case by simp
next
  case (2 pr a)
  let ?da = "a XOR predict_next pr"
  let ?s1 = "s\<lparr>rd_flags := push_bit 4 (flag_of_diff ?da) OR 0, rd_iter := rd_iter s + 1,
               rd_predictor := update a pr\<rparr>"
  have fb: "fcm_bytes pr [a] @ rest
      = (push_bit 4 (flag_of_diff ?da) OR 0) # value_bytes ?da (flag_of_diff ?da) @ [0] @ rest"
    by (simp add: pair_bytes_def Let_def)
  have nx: "FcmStreamReader_next s (fcm_bytes pr [a] @ rest) = Inr (a, ?s1, [0] @ rest)"
    unfolding fb
    using FcmStreamReader_next_first [OF "2.prems"(2), of 0 ?da "[0] @ rest"] "2.prems"(1)
    by (simp add: xor_restore)
  have "at < length dest" using "2.prems"(3) by simp
  then have ow: "dest[at := a] = overwrite at [a] dest" by (rule overwrite_update)
  have "read_values (length [a]) at s (fcm_bytes pr [a] @ rest) dest
      = Inr (?s1, [0] @ rest, overwrite at [a] dest)"
    by (simp add: nx ow del: fcm_bytes.simps)
  then show ?case
    by (intro exI [of _ ?s1]) (simp del: fcm_bytes.simps)
next
  case (3 pr a b vs)
  let ?da = "a XOR predict_next pr"
  let ?pr1 = "update a pr"
  let ?db = "b XOR predict_next ?pr1"
  let ?pr2 = "update b ?pr1"
  let ?c = "push_bit 4 (flag_of_diff ?da) OR flag_of_diff ?db"
  let ?s1 = "s\<lparr>rd_flags := ?c, rd_iter := rd_iter s + 1, rd_predictor := ?pr1\<rparr>"
  let ?s2 = "?s1\<lparr>rd_iter := rd_iter ?s1 + 1, rd_predictor := ?pr2\<rparr>"
  let ?tail = "fcm_bytes ?pr2 vs @ rest"
  let ?d2 = "dest[at := a, Suc at := b]"
  have fb: "fcm_bytes pr (a # b # vs) @ rest
      = ?c # value_bytes ?da (flag_of_diff ?da) @ value_bytes ?db (flag_of_diff ?db) @ ?tail"
    by (simp add: pair_bytes_def Let_def)
  have nx1: "FcmStreamReader_next s (fcm_bytes pr (a # b # vs) @ rest)
      = Inr (a, ?s1, value_bytes ?db (flag_of_diff ?db) @ ?tail)"
    unfolding fb
    using FcmStreamReader_next_first [OF "3.prems"(2) flag_of_diff_lt_16 [of ?db],
        of ?da "value_bytes ?db (flag_of_diff ?db) @ ?tail"] "3.prems"(1)
    by (simp add: xor_restore)
  have odd1: "odd (rd_iter ?s1)" using "3.prems"(2) by simp
  have fl: "rd_flags ?s1 = ?c" by simp
  have nx2: "FcmStreamReader_next ?s1 (value_bytes ?db (flag_of_diff ?db) @ ?tail)
      = Inr (b, ?s2, ?tail)"
    using FcmStreamReader_next_second [OF odd1 flag_of_diff_lt_16 [of ?da] fl, of ?tail]
    by (simp add: xor_restore)
  have "\<exists>s'. read_values (length vs) (Suc (Suc at)) ?s2 ?tail ?d2
               = Inr (s', (if even (length vs) then [] else [0]) @ rest,
                      overwrite (Suc (Suc at)) vs ?d2)
            \<and> rd_predictor s' = predictor_after ?pr2 vs
            \<and> rd_iter s' = rd_iter ?s2 + length vs"
  proof (rule "3.IH" [OF refl refl refl refl])
    show "rd_predictor ?s2 = ?pr2" by simp
    show "even (rd_iter ?s2)" using "3.prems"(2) by simp
    show "Suc (Suc at) + length vs \<le> length ?d2" using "3.prems"(3) by simp
  qed
  then obtain s' where
    ih: "read_values (length vs) (Suc (Suc at)) ?s2 ?tail ?d2
               = Inr (s', (if even (length vs) then [] else [0]) @ rest,
                      overwrite (Suc (Suc at)) vs ?d2)"
      "rd_predictor s' = predictor_after ?pr2 vs"
      "rd_iter s' = rd_iter ?s2 + length vs"
    by blast
  have "overwrite (Suc (Suc at)) vs ?d2 = overwrite (Suc at) (b # vs) (dest[at := a])"
    using "3.prems"(3) by (intro overwrite_Cons) simp
  also have "\<dots> = overwrite at (a # b # vs) dest"
    using "3.prems"(3) by (intro overwrite_Cons) simp
  finally have ow: "overwrite (Suc (Suc at)) vs ?d2 = overwrite at (a # b # vs) dest" .
  have l: "length (a # b # vs) = Suc (Suc (length vs))" by simp
  have e: "at + 1 = Suc at" "Suc at + 1 = Suc (Suc at)" by simp_all
  have rd: "read_values (length (a # b # vs)) at s (fcm_bytes pr (a # b # vs) @ rest) dest
      = read_values (length vs) (Suc (Suc at)) ?s2 ?tail ?d2"
    by (simp only: l read_values.simps nx1 nx2 sum.case prod.case e)
  have ev: "even (length (a # b # vs)) = even (length vs)" by simp
  have n: "rd_iter ?s2 + length vs = rd_iter s + length (a # b # vs)" by simp
  have p: "predictor_after ?pr2 vs = predictor_after pr (a # b # vs)" by simp
  show ?case
    unfolding rd ev using ih unfolding ow n p by blast
qed

subsection \<open>The encoded form of a block\<close>

declare encode_block_batches.simps [simp del]
declare decode_block_batches.simps [simp del]

lemma rle_run_append:
  "rle_run (rle_run run prev xs) (last (prev # xs)) ys = rle_run run prev (xs @ ys)"
  by (induction xs arbitrary: run prev) simp_all

lemma last_last: "last (last (prev # xs) # ys) = last (prev # xs @ ys)"
  by simp

lemma take_batch:
  "take BATCH_SIZE (take (Suc nb * BATCH_SIZE) xs) = take BATCH_SIZE xs"
  by (simp add: min_def)

lemma drop_batch:
  "drop BATCH_SIZE (take (Suc nb * BATCH_SIZE) xs) = take (nb * BATCH_SIZE) (drop BATCH_SIZE xs)"
  by (simp add: drop_take)

text \<open>The main section depends on the elements of the full batches only.\<close>

lemma batches_bytes_take:
  "batches_bytes nb run prev pr (take (nb * BATCH_SIZE) tss) (take (nb * BATCH_SIZE) vs)
     = batches_bytes nb run prev pr tss vs"
proof (induction nb arbitrary: run prev pr tss vs)
  case 0
  show ?case by simp
next
  case (Suc nb)
  show ?case
    unfolding batches_bytes.simps take_batch drop_batch Suc.IH ..
qed

text \<open>The large loop of \<open>encode_block\<close> writes the main section.\<close>

lemma encode_block_batches_bytes:
  assumes "dw_reps t = 0" and "dw_run t = run" and "dw_prev t = prev"
    and "predictor s = pr" and "even (nelements s)"
    and "tss = take (nb * BATCH_SIZE) (drop ix (slice_ts sl))"
    and "vs = take (nb * BATCH_SIZE) (drop ix (slice_value sl))"
    and "pos w + length (batches_bytes nb run prev pr tss vs) \<le> length (buf w)"
    and "ix + nb * BATCH_SIZE \<le> length (slice_value sl)"
  shows "\<exists>t' s'. encode_block_batches ix (ix + nb * BATCH_SIZE) sl t s w count
               = (t', s', append_bytes (batches_bytes nb run prev pr tss vs) w,
                  count + of_nat (nb * BATCH_SIZE))
            \<and> dw_reps t' = 0 \<and> dw_run t' = rle_run run prev tss \<and> dw_prev t' = last (prev # tss)
            \<and> predictor s' = predictor_after pr vs \<and> even (nelements s')"
  using assms
proof (induction nb arbitrary: ix t s w count run prev pr tss vs)
  case 0
  then have "append_bytes [] w = w" by (intro append_bytes_Nil) simp
  then show ?case
    using 0 by (subst encode_block_batches.simps) simp
next
  case (Suc nb)
  let ?ts1 = "take BATCH_SIZE (drop ix (slice_ts sl))"
  let ?vs1 = "take BATCH_SIZE (drop ix (slice_value sl))"
  let ?b1 = "rle_bytes run 0 prev ?ts1"
  let ?b2 = "fcm_bytes pr ?vs1"
  let ?run1 = "rle_run run prev ?ts1"
  let ?prev1 = "last (prev # ?ts1)"
  let ?pr1 = "predictor_after pr ?vs1"
  let ?tss' = "take (nb * BATCH_SIZE) (drop (ix + BATCH_SIZE) (slice_ts sl))"
  let ?vs' = "take (nb * BATCH_SIZE) (drop (ix + BATCH_SIZE) (slice_value sl))"
  let ?b3 = "batches_bytes nb ?run1 ?prev1 ?pr1 ?tss' ?vs'"
  have tk: "take BATCH_SIZE tss = ?ts1" "take BATCH_SIZE vs = ?vs1"
    unfolding Suc.prems(6,7) by (rule take_batch)+
  have dr: "drop BATCH_SIZE tss = ?tss'" "drop BATCH_SIZE vs = ?vs'"
    unfolding Suc.prems(6,7) drop_batch by (simp_all add: add.commute)
  have bb: "batches_bytes (Suc nb) run prev pr tss vs = ?b1 @ ?b2 @ ?b3"
    unfolding batches_bytes.simps tk dr ..
  have room: "pos w + length ?b1 + length ?b2 + length ?b3 \<le> length (buf w)"
    using Suc.prems(8) unfolding bb by simp
  have "pos w + length (rle_bytes (dw_run t) (dw_reps t) (dw_prev t) ?ts1) \<le> length (buf w)"
    using room Suc.prems(1-3) by simp
  from DeltaRLEWriter_batch [OF this] Suc.prems(1-3) obtain t1 where
    t1: "DeltaRLEWriter_tput ?ts1 t w = (True, t1, append_bytes ?b1 w)"
      "dw_reps t1 = 0" "dw_prev t1 = ?prev1" "dw_run t1 = ?run1"
    by auto
  have "pos (append_bytes ?b1 w) + length (fcm_bytes pr ?vs1) \<le> length (buf (append_bytes ?b1 w))"
    using room by simp
  from FcmStreamWriter_batch [OF Suc.prems(4,5) this] obtain s1 where
    s1: "FcmStreamWriter_tput ?vs1 s (append_bytes ?b1 w)
           = (True, s1, append_bytes ?b2 (append_bytes ?b1 w))"
      "predictor s1 = ?pr1" "nelements s1 = nelements s + length ?vs1"
    by auto
  let ?w2 = "append_bytes ?b2 (append_bytes ?b1 w)"
  have w2: "?w2 = append_bytes (?b1 @ ?b2) w"
    using room by (intro append_bytes_append) simp
  have "length ?vs1 = BATCH_SIZE" using Suc.prems(9) by simp
  then have ev: "even (nelements s1)"
    using s1(3) Suc.prems(5) by (simp add: BATCH_SIZE_def)
  have "\<exists>t' s'. encode_block_batches (ix + BATCH_SIZE) (ix + BATCH_SIZE + nb * BATCH_SIZE) sl t1 s1 ?w2
                 (count + of_nat BATCH_SIZE)
               = (t', s', append_bytes ?b3 ?w2, count + of_nat BATCH_SIZE + of_nat (nb * BATCH_SIZE))
            \<and> dw_reps t' = 0 \<and> dw_run t' = rle_run ?run1 ?prev1 ?tss'
            \<and> dw_prev t' = last (?prev1 # ?tss')
            \<and> predictor s' = predictor_after ?pr1 ?vs' \<and> even (nelements s')"
  proof (rule Suc.IH [OF t1(2) t1(4) t1(3) s1(2) ev refl refl])
    show "pos ?w2 + length ?b3 \<le> length (buf ?w2)"
      using room unfolding w2 by simp
    show "ix + BATCH_SIZE + nb * BATCH_SIZE \<le> length (slice_value sl)"
      using Suc.prems(9) by simp
  qed
  then obtain t' s' where
    ih: "encode_block_batches (ix + BATCH_SIZE) (ix + BATCH_SIZE + nb * BATCH_SIZE) sl t1 s1 ?w2
                 (count + of_nat BATCH_SIZE)
               = (t', s', append_bytes ?b3 ?w2, count + of_nat BATCH_SIZE + of_nat (nb * BATCH_SIZE))"
      "dw_reps t' = 0" "dw_run t' = rle_run ?run1 ?prev1 ?tss'"
      "dw_prev t' = last (?prev1 # ?tss')"
      "predictor s' = predictor_after ?pr1 ?vs'" "even (nelements s')"
    by blast
  have w3: "append_bytes ?b3 ?w2 = append_bytes (?b1 @ ?b2 @ ?b3) w"
    unfolding w2 using room append_bytes_append [of w "?b1 @ ?b2" ?b3] by simp
  have lt: "ix < ix + Suc nb * BATCH_SIZE" "ix < ix + BATCH_SIZE + nb * BATCH_SIZE"
    by (simp_all add: BATCH_SIZE_def)
  have be: "ix + Suc nb * BATCH_SIZE = ix + BATCH_SIZE + nb * BATCH_SIZE" by simp
  have cnt: "count + of_nat BATCH_SIZE + of_nat (nb * BATCH_SIZE) = count + of_nat (Suc nb * BATCH_SIZE)"
    by simp
  have step: "encode_block_batches ix (ix + Suc nb * BATCH_SIZE) sl t s w count
      = (t', s', append_bytes (batches_bytes (Suc nb) run prev pr tss vs) w,
         count + of_nat (Suc nb * BATCH_SIZE))"
    by (subst encode_block_batches.simps)
       (simp only: lt if_True t1(1) s1(1) prod.case bool.case be ih(1) w3 bb cnt)
  have tss: "tss = ?ts1 @ ?tss'" and vs: "vs = ?vs1 @ ?vs'"
    using append_take_drop_id [of BATCH_SIZE tss] append_take_drop_id [of BATCH_SIZE vs]
    unfolding tk dr by simp_all
  have "rle_run ?run1 ?prev1 ?tss' = rle_run run prev (?ts1 @ ?tss')"
    by (rule rle_run_append)
  then have 1: "rle_run ?run1 ?prev1 ?tss' = rle_run run prev tss"
    by (simp only: tss [symmetric])
  have "last (?prev1 # ?tss') = last (prev # ?ts1 @ ?tss')"
    by (rule last_last)
  then have 2: "last (?prev1 # ?tss') = last (prev # tss)"
    by (simp only: tss [symmetric])
  have "predictor_after ?pr1 ?vs' = predictor_after pr (?vs1 @ ?vs')"
    by (simp only: predictor_after_append)
  then have 3: "predictor_after ?pr1 ?vs' = predictor_after pr vs"
    by (simp only: vs [symmetric])
  show ?case
    using step ih(2-) unfolding 1 2 3 by blast
qed

text \<open>The small loop of \<open>encode_block\<close> writes the timestamps and the values that are left
  over, and adds their number to the count.\<close>

lemma encode_block_tail_bytes:
  assumes "dw_reps t = 0" and "dw_run t = run" and "dw_prev t = prev"
    and "predictor s = pr" and "even (nelements s)"
    and "tss = drop (slice_offset sl + unat count) (take (slice_size sl) (slice_ts sl))"
    and "vs = drop (slice_offset sl + unat count) (take (slice_size sl) (slice_value sl))"
    and "pos w + length (rle_bytes run 0 prev tss @ fcm_bytes pr vs) \<le> length (buf w)"
  shows "encode_block_tail sl tailsize t s w count
       = (append_bytes (rle_bytes run 0 prev tss @ fcm_bytes pr vs) w, count + of_nat tailsize)"
proof -
  let ?b1 = "rle_bytes run 0 prev tss"
  let ?b2 = "fcm_bytes pr vs"
  let ?w1 = "append_bytes ?b1 w"
  have room: "pos w + length ?b1 + length ?b2 \<le> length (buf w)"
    using assms(8) by simp
  have "pos w + length (rle_bytes (dw_run t) (dw_reps t) (dw_prev t) tss) \<le> length (buf w)"
    using room assms(1-3) by simp
  from DeltaRLEWriter_batch [OF this] assms(1-3) obtain t1 where
    t1: "(case put_timestamps tss t w of (t1, w1) \<Rightarrow> DeltaRLEWriter_commit t1 w1) = (True, t1, ?w1)"
    by auto
  have "pos ?w1 + length (fcm_bytes pr vs) \<le> length (buf ?w1)"
    using room by simp
  from FcmStreamWriter_batch [OF assms(4,5) this] obtain s1 where
    s1: "(case put_values vs s ?w1 of (s1, w1) \<Rightarrow> FcmStreamWriter_commit s1 w1)
           = (True, s1, append_bytes ?b2 ?w1)"
    by auto
  have w2: "append_bytes ?b2 ?w1 = append_bytes (?b1 @ ?b2) w"
    using room by (intro append_bytes_append) simp
  obtain ta wa where pt: "put_timestamps tss t w = (ta, wa)" by (cases "put_timestamps tss t w")
  with t1 have ct: "DeltaRLEWriter_commit ta wa = (True, t1, ?w1)" by simp
  obtain sa wb where pv: "put_values vs s ?w1 = (sa, wb)" by (cases "put_values vs s ?w1")
  with s1 have cv: "FcmStreamWriter_commit sa wb = (True, s1, append_bytes (?b1 @ ?b2) w)"
    by (simp add: w2)
  show ?thesis
    unfolding encode_block_tail_def Let_def assms(6,7) [symmetric]
    by (simp only: pt ct pv cv prod.case bool.case)
qed

text \<open>A batch of timestamps read back.\<close>

lemma read_timestamps_batch:
  assumes "dr_reps r = 0" and "dr_prev r = prev" and "length vs < 2 ^ 64"
    and "at + length vs \<le> length dest"
  shows "\<exists>r'. read_timestamps (length vs) at r (rle_bytes run 0 prev vs @ rest) dest
               = Inr (r', rest, overwrite at vs dest)
            \<and> dr_reps r' = 0 \<and> dr_prev r' = last (prev # vs)"
  using read_timestamps_rle_bytes [of r run 0 prev vs at dest rest] assms by simp

text \<open>The large loop of \<open>decode_block\<close> reads the main section back.\<close>

lemma decode_block_batches_bytes:
  assumes "dr_reps r = 0" and "dr_prev r = prev" and "rd_predictor s = pr" and "even (rd_iter s)"
    and "length tss = nb * BATCH_SIZE" and "length vs = nb * BATCH_SIZE"
    and "ix + nb * BATCH_SIZE \<le> length (slice_ts dest)"
    and "ix + nb * BATCH_SIZE \<le> length (slice_value dest)"
  shows "\<exists>r' s'. decode_block_batches ix (ix + nb * BATCH_SIZE) r s
                   (batches_bytes nb run prev pr tss vs @ rest) dest
               = Inr (r', s', rest,
                      dest\<lparr>slice_ts := overwrite ix tss (slice_ts dest),
                           slice_value := overwrite ix vs (slice_value dest)\<rparr>)
            \<and> dr_reps r' = 0 \<and> dr_prev r' = last (prev # tss)
            \<and> rd_predictor s' = predictor_after pr vs \<and> even (rd_iter s')"
  using assms
proof (induction nb arbitrary: ix r s dest run prev pr tss vs)
  case 0
  then show ?case
    by (subst decode_block_batches.simps) simp
next
  case (Suc nb)
  let ?ts1 = "take BATCH_SIZE tss" and ?vs1 = "take BATCH_SIZE vs"
  let ?tss' = "drop BATCH_SIZE tss" and ?vs' = "drop BATCH_SIZE vs"
  let ?run1 = "rle_run run prev ?ts1"
  let ?prev1 = "last (prev # ?ts1)"
  let ?pr1 = "predictor_after pr ?vs1"
  let ?b3 = "batches_bytes nb ?run1 ?prev1 ?pr1 ?tss' ?vs'"
  let ?d1 = "overwrite ix ?ts1 (slice_ts dest)"
  let ?e1 = "overwrite ix ?vs1 (slice_value dest)"
  let ?dest1 = "dest\<lparr>slice_ts := ?d1, slice_value := ?e1\<rparr>"
  have l1: "length ?ts1 = BATCH_SIZE" "length ?vs1 = BATCH_SIZE"
    using Suc.prems(5,6) by simp_all
  have l2: "length ?tss' = nb * BATCH_SIZE" "length ?vs' = nb * BATCH_SIZE"
    using Suc.prems(5,6) by simp_all
  have bb: "batches_bytes (Suc nb) run prev pr tss vs @ rest
          = rle_bytes run 0 prev ?ts1 @ (fcm_bytes pr ?vs1 @ ?b3 @ rest)"
    by simp
  have "\<exists>r'. read_timestamps (length ?ts1) ix r
                (rle_bytes run 0 prev ?ts1 @ (fcm_bytes pr ?vs1 @ ?b3 @ rest)) (slice_ts dest)
               = Inr (r', fcm_bytes pr ?vs1 @ ?b3 @ rest, ?d1)
            \<and> dr_reps r' = 0 \<and> dr_prev r' = ?prev1"
  proof (rule read_timestamps_batch [OF Suc.prems(1,2)])
    show "length ?ts1 < 2 ^ 64" unfolding l1 by (simp add: BATCH_SIZE_def)
    show "ix + length ?ts1 \<le> length (slice_ts dest)" unfolding l1 using Suc.prems(7) by simp
  qed
  then obtain r1 where
    r1: "read_timestamps BATCH_SIZE ix r
           (rle_bytes run 0 prev ?ts1 @ (fcm_bytes pr ?vs1 @ ?b3 @ rest)) (slice_ts dest)
         = Inr (r1, fcm_bytes pr ?vs1 @ ?b3 @ rest, ?d1)"
      "dr_reps r1 = 0" "dr_prev r1 = ?prev1"
    unfolding l1 by blast
  have "ix + length ?vs1 \<le> length (slice_value dest)"
    unfolding l1 using Suc.prems(8) by simp
  from read_values_fcm_bytes [OF Suc.prems(3,4) this, of "?b3 @ rest"]
  obtain s1 where
    s1: "read_values BATCH_SIZE ix s (fcm_bytes pr ?vs1 @ ?b3 @ rest) (slice_value dest)
         = Inr (s1, ?b3 @ rest, ?e1)"
      "rd_predictor s1 = ?pr1" "even (rd_iter s1)"
    unfolding l1 using Suc.prems(4) by (auto simp: BATCH_SIZE_def)
  have "\<exists>r' s'. decode_block_batches (ix + BATCH_SIZE) (ix + BATCH_SIZE + nb * BATCH_SIZE) r1 s1
                   (?b3 @ rest) ?dest1
               = Inr (r', s', rest,
                      ?dest1\<lparr>slice_ts := overwrite (ix + BATCH_SIZE) ?tss' (slice_ts ?dest1),
                           slice_value := overwrite (ix + BATCH_SIZE) ?vs' (slice_value ?dest1)\<rparr>)
            \<and> dr_reps r' = 0 \<and> dr_prev r' = last (?prev1 # ?tss')
            \<and> rd_predictor s' = predictor_after ?pr1 ?vs' \<and> even (rd_iter s')"
  proof (rule Suc.IH [OF r1(2,3) s1(2,3) l2])
    show "ix + BATCH_SIZE + nb * BATCH_SIZE \<le> length (slice_ts ?dest1)"
      using Suc.prems(7) l1 by simp
    show "ix + BATCH_SIZE + nb * BATCH_SIZE \<le> length (slice_value ?dest1)"
      using Suc.prems(8) l1 by simp
  qed
  then obtain r' s' where
    ih: "decode_block_batches (ix + BATCH_SIZE) (ix + BATCH_SIZE + nb * BATCH_SIZE) r1 s1
                   (?b3 @ rest) ?dest1
               = Inr (r', s', rest,
                      ?dest1\<lparr>slice_ts := overwrite (ix + BATCH_SIZE) ?tss' (slice_ts ?dest1),
                           slice_value := overwrite (ix + BATCH_SIZE) ?vs' (slice_value ?dest1)\<rparr>)"
      "dr_reps r' = 0" "dr_prev r' = last (?prev1 # ?tss')"
      "rd_predictor s' = predictor_after ?pr1 ?vs'" "even (rd_iter s')"
    by blast
  have o1: "overwrite (ix + BATCH_SIZE) ?tss' ?d1 = overwrite ix tss (slice_ts dest)"
    using overwrite_append [of ix ?ts1 ?tss' "slice_ts dest"] Suc.prems(5,7) l1 by simp
  have o2: "overwrite (ix + BATCH_SIZE) ?vs' ?e1 = overwrite ix vs (slice_value dest)"
    using overwrite_append [of ix ?vs1 ?vs' "slice_value dest"] Suc.prems(6,8) l1 by simp
  have fin: "?dest1\<lparr>slice_ts := overwrite (ix + BATCH_SIZE) ?tss' (slice_ts ?dest1),
                   slice_value := overwrite (ix + BATCH_SIZE) ?vs' (slice_value ?dest1)\<rparr>
      = dest\<lparr>slice_ts := overwrite ix tss (slice_ts dest),
             slice_value := overwrite ix vs (slice_value dest)\<rparr>"
    by (simp add: o1 o2)
  have lt: "ix < ix + Suc nb * BATCH_SIZE" by (simp add: BATCH_SIZE_def)
  have be: "ix + Suc nb * BATCH_SIZE = ix + BATCH_SIZE + nb * BATCH_SIZE" by simp
  have ih': "decode_block_batches (ix + BATCH_SIZE) (ix + Suc nb * BATCH_SIZE) r1 s1
                   (?b3 @ rest) ?dest1
      = Inr (r', s', rest,
             dest\<lparr>slice_ts := overwrite ix tss (slice_ts dest),
                  slice_value := overwrite ix vs (slice_value dest)\<rparr>)"
    using ih(1) unfolding fin be .
  have step: "decode_block_batches ix (ix + Suc nb * BATCH_SIZE) r s
                (batches_bytes (Suc nb) run prev pr tss vs @ rest) dest
      = Inr (r', s', rest,
             dest\<lparr>slice_ts := overwrite ix tss (slice_ts dest),
                  slice_value := overwrite ix vs (slice_value dest)\<rparr>)"
    unfolding bb
    by (subst decode_block_batches.simps)
       (simp only: lt if_True r1(1) s1(1) sum.case prod.case ih')
  have 1: "last (?prev1 # ?tss') = last (prev # tss)"
    using last_last [of prev ?ts1 ?tss'] by simp
  have 3: "predictor_after ?pr1 ?vs' = predictor_after pr vs"
    using predictor_after_append [of pr ?vs1 ?vs'] by simp
  show ?case
    using step ih(2-) unfolding 1 3 by blast
qed

subsection \<open>encode\_block writes the header and the encoded form\<close>

lemma store_bytes_at:
  "length a = off \<Longrightarrow> length old = length bs \<Longrightarrow> store_bytes off bs (a @ old @ rest) = a @ bs @ rest"
  by (simp add: store_bytes_def)

text \<open>The buffer after the header fields have been patched and the body written behind them.\<close>

lemma block_buffer:
  assumes "14 + length body \<le> length buffer"
    and "length v2 = 2" and "length v4 = 4" and "length v8 = 8"
  shows "store_bytes 2 v4 (store_bytes 14 body (store_bytes 6 v8 (store_bytes 0 v2 buffer)))
       = v2 @ v4 @ v8 @ body @ drop (14 + length body) buffer"
proof -
  define h2 where "h2 = take 2 buffer"
  define h4 where "h4 = take 4 (drop 2 buffer)"
  define h8 where "h8 = take 8 (drop 6 buffer)"
  define hb where "hb = take (length body) (drop 14 buffer)"
  define rest where "rest = drop (length body) (drop 14 buffer)"
  have len: "length h2 = 2" "length h4 = 4" "length h8 = 8" "length hb = length body"
    using assms(1) by (simp_all add: h2_def h4_def h8_def hb_def)
  have rest: "rest = drop (14 + length body) buffer"
    by (simp add: rest_def add.commute)
  have d: "drop 14 buffer = drop 8 (drop 6 buffer)" "drop 6 buffer = drop 4 (drop 2 buffer)"
    by simp_all
  have "hb @ rest = drop 14 buffer"
    unfolding hb_def rest_def by (rule append_take_drop_id)
  then have "h8 @ hb @ rest = drop 6 buffer"
    unfolding h8_def d(1) by (simp only: append_take_drop_id)
  then have "h4 @ h8 @ hb @ rest = drop 2 buffer"
    unfolding h4_def d(2) by (simp only: append_take_drop_id)
  then have "h2 @ h4 @ h8 @ hb @ rest = buffer"
    unfolding h2_def by (simp only: append_take_drop_id)
  then have b: "buffer = h2 @ h4 @ h8 @ hb @ rest" ..
  have 1: "store_bytes 0 v2 buffer = v2 @ h4 @ h8 @ hb @ rest"
    unfolding b using store_bytes_at [of "[]" 0 h2 v2 "h4 @ h8 @ hb @ rest"] len assms by simp
  have 2: "store_bytes 6 v8 (v2 @ h4 @ h8 @ hb @ rest) = v2 @ h4 @ v8 @ hb @ rest"
    using store_bytes_at [of "v2 @ h4" 6 h8 v8 "hb @ rest"] len assms by simp
  have 3: "store_bytes 14 body (v2 @ h4 @ v8 @ hb @ rest) = v2 @ h4 @ v8 @ body @ rest"
    using store_bytes_at [of "v2 @ h4 @ v8" 14 hb body rest] len assms by simp
  have 4: "store_bytes 2 v4 (v2 @ h4 @ v8 @ body @ rest) = v2 @ v4 @ v8 @ body @ rest"
    using store_bytes_at [of v2 2 h4 v4 "v8 @ body @ rest"] len assms by simp
  have "store_bytes 2 v4 (store_bytes 14 body (store_bytes 6 v8 (store_bytes 0 v2 buffer)))
      = v2 @ v4 @ v8 @ body @ rest"
    unfolding 1 2 3 4 ..
  then show ?thesis
    unfolding rest .
qed

lemma take_slice_range:
  assumes "slice_offset sl + m \<le> slice_size sl"
  shows "take m (drop (slice_offset sl) xs) = take m (slice_range sl xs)"
  using assms by (simp add: slice_range_def drop_take min_def)

lemma drop_slice_range:
  "drop (slice_offset sl + m) (take (slice_size sl) xs) = drop m (slice_range sl xs)"
  by (simp add: slice_range_def add.commute)

lemma length_slice_range:
  "slice_size sl \<le> length xs \<Longrightarrow> length (slice_range sl xs) = slice_size sl - slice_offset sl"
  by (simp add: slice_range_def)

lemma unat_count:
  "n < 2 ^ 32 \<Longrightarrow> unat (of_nat n :: u32) = n"
  by (simp add: unat_of_nat)

lemma allocate_header:
  assumes "14 \<le> length buffer"
  shows "allocate 2 \<lparr>buf = buffer, pos = 0\<rparr> = (Some 0, \<lparr>buf = buffer, pos = 2\<rparr>)"
    and "allocate 4 \<lparr>buf = buffer, pos = 2\<rparr> = (Some 2, \<lparr>buf = buffer, pos = 6\<rparr>)"
    and "allocate 8 \<lparr>buf = buffer, pos = 6\<rparr> = (Some 6, \<lparr>buf = buffer, pos = 14\<rparr>)"
  using assms by (simp_all add: allocate_def space_left_def)

lemma encode_block_bytes:
  assumes "slice_ok sl" and "slice_size sl - slice_offset sl < 2 ^ 32"
    and "14 + length (block_bytes pk (slice_range sl (slice_ts sl)) (slice_range sl (slice_value sl)))
           \<le> length buffer"
  shows "encode_block version pk sl buffer
       = Inr (AKU_SUCCESS, sl\<lparr>slice_offset := slice_size sl\<rparr>,
              le_bytes 2 version
              @ le_bytes 4 (of_nat (slice_size sl - slice_offset sl) :: u32)
              @ le_bytes 8 (slice_id sl)
              @ block_bytes pk (slice_range sl (slice_ts sl)) (slice_range sl (slice_value sl))
              @ drop (14 + length (block_bytes pk (slice_range sl (slice_ts sl))
                                      (slice_range sl (slice_value sl)))) buffer)"
proof -
  let ?n = "slice_size sl - slice_offset sl"
  let ?nb = "?n div BATCH_SIZE"
  let ?tl = "?n mod BATCH_SIZE"
  let ?full = "?nb * BATCH_SIZE"
  let ?off = "slice_offset sl"
  let ?tss = "slice_range sl (slice_ts sl)" and ?vs = "slice_range sl (slice_value sl)"
  let ?pnew = "PredictorT_new pk PREDICTOR_N"
  let ?B = "batches_bytes ?nb 0 0 ?pnew ?tss ?vs"
  let ?run = "rle_run 0 0 (take ?full ?tss)"
  let ?prev = "last (0 # take ?full ?tss)"
  let ?pr = "predictor_after ?pnew (take ?full ?vs)"
  let ?T = "rle_bytes ?run 0 ?prev (drop ?full ?tss) @ fcm_bytes ?pr (drop ?full ?vs)"
  let ?body = "block_bytes pk ?tss ?vs"
  let ?wc = "\<lparr>buf = buffer, pos = 14\<rparr>"
  let ?bd = "store_bytes 6 (le_bytes 8 (slice_id sl)) (store_bytes 0 (le_bytes 2 version) buffer)"
  let ?wd = "\<lparr>buf = ?bd, pos = 14\<rparr>"
  have ok: "?off \<le> slice_size sl" "slice_size sl \<le> length (slice_ts sl)"
      "slice_size sl \<le> length (slice_value sl)"
    using assms(1) by (simp_all add: slice_ok_def)
  have len: "length ?tss = ?n" "length ?vs = ?n"
    using ok by (simp_all add: length_slice_range)
  have full: "?full \<le> ?n" by simp
  then have fo: "?off + ?full \<le> slice_size sl" using ok(1) by linarith
  have body: "?body = ?B @ ?T"
    by (simp add: block_bytes_def Let_def len)
  have room: "14 + length ?B + length ?T \<le> length buffer"
    using assms(3) unfolding body by simp
  have h14: "14 \<le> length buffer" using room by simp
  have w4: "?wc\<lparr>buf := store_bytes 6 (le_bytes 8 (slice_id sl))
                         (store_bytes 0 (le_bytes 2 version) (buf ?wc))\<rparr> = ?wd"
    by simp
  have w4_len: "length (buf ?wd) = length buffer" "pos ?wd = 14"
    using room by simp_all
  txt \<open>The large loop.\<close>
  let ?tssB = "take ?full (drop ?off (slice_ts sl))"
  let ?vsB = "take ?full (drop ?off (slice_value sl))"
  have tB: "?tssB = take ?full ?tss" and vB: "?vsB = take ?full ?vs"
    by (rule take_slice_range [OF fo])+
  have BB: "batches_bytes ?nb 0 0 ?pnew ?tssB ?vsB = ?B"
    unfolding tB vB by (rule batches_bytes_take)
  have "\<exists>t' s'. encode_block_batches ?off (?off + ?full) sl (DeltaRLEWriter_new ?wd)
                   (FcmStreamWriter_new pk) ?wd 0
               = (t', s', append_bytes (batches_bytes ?nb 0 0 ?pnew ?tssB ?vsB) ?wd,
                  0 + of_nat ?full)
            \<and> dw_reps t' = 0 \<and> dw_run t' = rle_run 0 0 ?tssB \<and> dw_prev t' = last (0 # ?tssB)
            \<and> predictor s' = predictor_after ?pnew ?vsB \<and> even (nelements s')"
  proof (rule encode_block_batches_bytes [OF _ _ _ _ _ refl refl])
    show "dw_reps (DeltaRLEWriter_new ?wd) = 0" "dw_run (DeltaRLEWriter_new ?wd) = 0"
      "dw_prev (DeltaRLEWriter_new ?wd) = 0"
      by (simp_all add: DeltaRLEWriter_new_def)
    show "predictor (FcmStreamWriter_new pk) = ?pnew" "even (nelements (FcmStreamWriter_new pk))"
      by (simp_all add: FcmStreamWriter_new_def)
    show "pos ?wd + length (batches_bytes ?nb 0 0 ?pnew ?tssB ?vsB) \<le> length (buf ?wd)"
      unfolding BB w4_len using room by simp
    show "?off + ?full \<le> length (slice_value sl)"
      using fo ok(3) by (rule order_trans)
  qed
  then obtain t' s' where
    e1: "encode_block_batches ?off (?off + ?full) sl (DeltaRLEWriter_new ?wd)
           (FcmStreamWriter_new pk) ?wd 0
         = (t', s', append_bytes ?B ?wd, of_nat ?full)"
      and t': "dw_reps t' = 0" "dw_run t' = ?run" "dw_prev t' = ?prev"
      and s': "predictor s' = ?pr" "even (nelements s')"
    unfolding BB unfolding tB vB by auto
  txt \<open>The small loop.\<close>
  let ?we = "append_bytes ?B ?wd"
  let ?count = "of_nat ?full :: u32"
  have "?full < 2 ^ 32" using full assms(2) by (rule le_less_trans)
  then have cnt: "unat ?count = ?full" by (rule unat_count)
  have tT: "drop (?off + unat ?count) (take (slice_size sl) (slice_ts sl)) = drop ?full ?tss"
    and vT: "drop (?off + unat ?count) (take (slice_size sl) (slice_value sl)) = drop ?full ?vs"
    unfolding cnt by (rule drop_slice_range)+
  have "pos ?we + length ?T \<le> length (buf ?we)"
    using room by simp
  from encode_block_tail_bytes [OF t' s' tT [symmetric] vT [symmetric] this, of ?tl]
  have e2: "encode_block_tail sl ?tl t' s' ?we ?count = (append_bytes ?T ?we, ?count + of_nat ?tl)" .
  have w6: "append_bytes ?T ?we = append_bytes ?body ?wd"
    unfolding body using room by (intro append_bytes_append) simp
  have "?full + ?tl = ?n" by simp
  from arg_cong [OF this, of "of_nat :: nat \<Rightarrow> u32"]
  have count': "?count + of_nat ?tl = (of_nat ?n :: u32)"
    by (simp only: of_nat_add)
  have un: "unat (of_nat ?n :: u32) = ?n"
    using assms(2) by (rule unat_count)
  have off': "?off + ?n = slice_size sl" using ok(1) by simp
  have final: "store_bytes 2 (le_bytes 4 (of_nat ?n :: u32)) (buf (append_bytes ?body ?wd))
      = le_bytes 2 version @ le_bytes 4 (of_nat ?n :: u32) @ le_bytes 8 (slice_id sl) @ ?body
        @ drop (14 + length ?body) buffer"
    using block_buffer [OF assms(3), of "le_bytes 2 version" "le_bytes 4 (of_nat ?n :: u32)"
        "le_bytes 8 (slice_id sl)"]
    by (simp add: append_bytes_def)
  show ?thesis
    unfolding encode_block_def Let_def
    by (simp only: allocate_header [OF h14] prod.case option.case w4 e1 e2 w6 count' un off' final)
qed

subsection \<open>decode\_block reads the header and the encoded form\<close>

lemma from_le_le_bytes_u32 [simp]: "from_le (le_bytes 4 (x :: u32)) = x"
  by (simp add: from_le_le_bytes take_bit_word_eq_self)

lemma from_le_le_bytes_u64 [simp]: "from_le (le_bytes 8 (x :: u64)) = x"
  by (simp add: from_le_le_bytes take_bit_word_eq_self)

lemma read_raw_le_bytes:
  "read_raw_u16 (le_bytes 2 a @ r) = Inr (a, r)"
  "read_raw_u32 (le_bytes 4 b @ r) = Inr (b, r)"
  "read_raw_u64 (le_bytes 8 c @ r) = Inr (c, r)"
  using read_bytes_append [of "le_bytes 2 a" r] read_bytes_append [of "le_bytes 4 b" r]
    read_bytes_append [of "le_bytes 8 c" r]
  by (simp_all add: read_raw_u16_def read_raw_u32_def read_raw_u64_def)

lemma overwrite_take_drop:
  assumes "m \<le> length xs" and "at + length xs \<le> length d"
  shows "overwrite (at + m) (drop m xs) (overwrite at (take m xs) d) = overwrite at xs d"
proof -
  have l: "length (take m xs) = m" using assms(1) by simp
  have "at + length (take m xs) + length (drop m xs) \<le> length d"
    using assms by simp
  from overwrite_append [OF this] show ?thesis
    unfolding l by simp
qed

lemma decode_block_bytes:
  assumes "slice_ok dest"
    and "length tss = slice_size dest - slice_offset dest"
    and "length vs = slice_size dest - slice_offset dest"
    and "slice_size dest - slice_offset dest < 2 ^ 32"
  shows "decode_block version pk
           (le_bytes 2 version @ le_bytes 4 (of_nat (slice_size dest - slice_offset dest) :: u32)
            @ le_bytes 8 series @ block_bytes pk tss vs @ rest) dest
       = Inr (AKU_SUCCESS,
              dest\<lparr>slice_id := series,
                   slice_ts := overwrite (slice_offset dest) tss (slice_ts dest),
                   slice_value := overwrite (slice_offset dest) vs (slice_value dest),
                   slice_offset := slice_offset dest + slice_size dest\<rparr>)"
proof -
  let ?n = "slice_size dest - slice_offset dest"
  let ?nb = "?n div BATCH_SIZE"
  let ?tl = "?n mod BATCH_SIZE"
  let ?full = "?nb * BATCH_SIZE"
  let ?off = "slice_offset dest"
  let ?pnew = "PredictorT_new pk PREDICTOR_N"
  let ?tsB = "take ?full tss" and ?vsB = "take ?full vs"
  let ?tsT = "drop ?full tss" and ?vsT = "drop ?full vs"
  let ?run = "rle_run 0 0 ?tsB"
  let ?prev = "last (0 # ?tsB)"
  let ?pr = "predictor_after ?pnew ?vsB"
  let ?Ta = "rle_bytes ?run 0 ?prev ?tsT"
  let ?Tb = "fcm_bytes ?pr ?vsT"
  let ?dest = "dest\<lparr>slice_id := series\<rparr>"
  let ?da = "overwrite ?off ?tsB (slice_ts dest)"
  let ?ea = "overwrite ?off ?vsB (slice_value dest)"
  let ?destB = "?dest\<lparr>slice_ts := ?da, slice_value := ?ea\<rparr>"
  have ok: "?off \<le> slice_size dest" "slice_size dest \<le> length (slice_ts dest)"
      "slice_size dest \<le> length (slice_value dest)"
    using assms(1) by (simp_all add: slice_ok_def)
  have full: "?full \<le> ?n" by simp
  then have fo: "?off + ?full \<le> slice_size dest" using ok(1) by linarith
  have tl: "?full + ?tl = ?n" by simp
  have on: "?off + ?n = slice_size dest" using ok(1) by simp
  have body: "block_bytes pk tss vs @ rest
      = batches_bytes ?nb 0 0 ?pnew ?tsB ?vsB @ (?Ta @ (?Tb @ rest))"
    by (simp add: block_bytes_def Let_def assms(2,3) batches_bytes_take)
  have lB: "length ?tsB = ?full" "length ?vsB = ?full"
    using full assms(2,3) by simp_all
  have nf: "?n - ?full = ?tl" using tl by linarith
  have lT: "length ?tsT = ?tl" "length ?vsT = ?tl"
    unfolding length_drop assms(2,3) nf by (rule refl)+
  txt \<open>The large loop.\<close>
  have "\<exists>r' s'. decode_block_batches ?off (?off + ?full) DeltaRLEReader_new (FcmStreamReader_new pk)
                   (batches_bytes ?nb 0 0 ?pnew ?tsB ?vsB @ (?Ta @ (?Tb @ rest))) ?dest
               = Inr (r', s', ?Ta @ (?Tb @ rest),
                      ?dest\<lparr>slice_ts := overwrite ?off ?tsB (slice_ts ?dest),
                           slice_value := overwrite ?off ?vsB (slice_value ?dest)\<rparr>)
            \<and> dr_reps r' = 0 \<and> dr_prev r' = last (0 # ?tsB)
            \<and> rd_predictor s' = predictor_after ?pnew ?vsB \<and> even (rd_iter s')"
  proof (rule decode_block_batches_bytes [OF _ _ _ _ lB])
    show "dr_reps DeltaRLEReader_new = 0" "dr_prev DeltaRLEReader_new = 0"
      by (simp_all add: DeltaRLEReader_new_def)
    show "rd_predictor (FcmStreamReader_new pk) = ?pnew" "even (rd_iter (FcmStreamReader_new pk))"
      by (simp_all add: FcmStreamReader_new_def)
    show "?off + ?full \<le> length (slice_ts ?dest)" using fo ok(2) by simp
    show "?off + ?full \<le> length (slice_value ?dest)" using fo ok(3) by simp
  qed
  then obtain r' s' where
    d1: "decode_block_batches ?off (?off + ?full) DeltaRLEReader_new (FcmStreamReader_new pk)
           (batches_bytes ?nb 0 0 ?pnew ?tsB ?vsB @ (?Ta @ (?Tb @ rest))) ?dest
         = Inr (r', s', ?Ta @ (?Tb @ rest), ?destB)"
      and r': "dr_reps r' = 0" "dr_prev r' = ?prev"
      and s': "rd_predictor s' = ?pr" "even (rd_iter s')"
    by auto
  txt \<open>The tail.\<close>
  have oft: "?off + ?full + ?tl = slice_size dest" using tl on by linarith
  have "?off + length ?tsB \<le> length (slice_ts dest)"
    unfolding lB using fo ok(2) by (rule order_trans)
  then have lda: "length ?da = length (slice_ts dest)" by (rule length_overwrite)
  have "?off + length ?vsB \<le> length (slice_value dest)"
    unfolding lB using fo ok(3) by (rule order_trans)
  then have lea: "length ?ea = length (slice_value dest)" by (rule length_overwrite)
  have "length ?tsT < 2 ^ 64" unfolding lT by (simp add: BATCH_SIZE_def)
  moreover have "?off + ?full + length ?tsT \<le> length ?da"
    unfolding lT lda oft by (rule ok(2))
  ultimately have "\<exists>r''. read_timestamps (length ?tsT) (?off + ?full) r' (?Ta @ (?Tb @ rest)) ?da
               = Inr (r'', ?Tb @ rest, overwrite (?off + ?full) ?tsT ?da)
            \<and> dr_reps r'' = 0 \<and> dr_prev r'' = last (?prev # ?tsT)"
    by (rule read_timestamps_batch [OF r'])
  then obtain r'' where
    d2: "read_timestamps ?tl (?off + ?full) r' (?Ta @ (?Tb @ rest)) ?da
         = Inr (r'', ?Tb @ rest, overwrite (?off + ?full) ?tsT ?da)"
    unfolding lT by blast
  have "?off + ?full + length ?vsT \<le> length ?ea"
    unfolding lT lea oft by (rule ok(3))
  from read_values_fcm_bytes [OF s' this, of rest]
  obtain s'' where
    d3: "read_values ?tl (?off + ?full) s' (?Tb @ rest) ?ea
         = Inr (s'', (if even (length ?vsT) then [] else [0]) @ rest,
                overwrite (?off + ?full) ?vsT ?ea)"
    unfolding lT by blast
  have o1: "overwrite (?off + ?full) ?tsT ?da = overwrite ?off tss (slice_ts dest)"
  proof (rule overwrite_take_drop)
    show "?full \<le> length tss" unfolding assms(2) by (rule full)
    show "?off + length tss \<le> length (slice_ts dest)" unfolding assms(2) on by (rule ok(2))
  qed
  have o2: "overwrite (?off + ?full) ?vsT ?ea = overwrite ?off vs (slice_value dest)"
  proof (rule overwrite_take_drop)
    show "?full \<le> length vs" unfolding assms(3) by (rule full)
    show "?off + length vs \<le> length (slice_value dest)" unfolding assms(3) on by (rule ok(3))
  qed
  have un: "unat (of_nat ?n :: u32) = ?n"
    using assms(4) by (rule unat_count)
  have chk: "(slice_size dest < slice_offset dest
               \<or> slice_size dest - slice_offset dest < unat (of_nat ?n :: u32)) = False"
    unfolding un using ok(1) by simp
  have sel: "slice_size ?dest = slice_size dest" "slice_offset ?dest = slice_offset dest"
      "slice_ts ?destB = ?da" "slice_value ?destB = ?ea" "slice_offset ?destB = slice_offset dest"
    by simp_all
  have fin: "?destB\<lparr>slice_ts := overwrite ?off tss (slice_ts dest),
                    slice_value := overwrite ?off vs (slice_value dest),
                    slice_offset := ?off + (?off + ?full + ?tl)\<rparr>
      = dest\<lparr>slice_id := series,
             slice_ts := overwrite ?off tss (slice_ts dest),
             slice_value := overwrite ?off vs (slice_value dest),
             slice_offset := ?off + slice_size dest\<rparr>"
    using tl on by (simp add: add.assoc)
  show ?thesis
    unfolding decode_block_def Let_def
    by (simp only: read_raw_le_bytes sum.case prod.case simp_thms if_False chk sel body d1 d2 d3
          o1 o2 fin)
qed

section \<open>The round trip of a block\<close>

lemma slice_range_overwrite:
  assumes "slice_offset s \<le> slice_size s" and "length xs = slice_size s - slice_offset s"
    and "slice_size s \<le> length d"
  shows "slice_range s (overwrite (slice_offset s) xs d) = xs"
  using assms by (simp add: slice_range_def overwrite_def min_def)

text \<open>C1: for every slice of samples whose encoded form fits into the output buffer behind the
  header of 14 bytes, \<open>encode_block\<close> succeeds and takes the whole slice, and \<open>decode_block\<close>
  applied to the buffer it wrote, with a destination slice that has room for as many samples
  as were encoded, succeeds and stores the series id and, in order, every timestamp and every
  value (the 64-bit pattern of the double) of the slice. The number of samples is less than
  \<open>2 ^ 32\<close>, the width of the count in the header.\<close>

theorem encode_decode_block:
  assumes "slice_ok sl" and "slice_ok dest"
    and "slice_size dest - slice_offset dest = slice_size sl - slice_offset sl"
    and "slice_size sl - slice_offset sl < 2 ^ 32"
    and "14 + length (block_bytes pk (slice_range sl (slice_ts sl)) (slice_range sl (slice_value sl)))
           \<le> length buffer"
  shows "\<exists>buffer' dest'.
           encode_block version pk sl buffer
             = Inr (AKU_SUCCESS, sl\<lparr>slice_offset := slice_size sl\<rparr>, buffer')
         \<and> decode_block version pk buffer' dest = Inr (AKU_SUCCESS, dest')
         \<and> slice_id dest' = slice_id sl
         \<and> slice_range dest (slice_ts dest') = slice_range sl (slice_ts sl)
         \<and> slice_range dest (slice_value dest') = slice_range sl (slice_value sl)"
proof -
  let ?tss = "slice_range sl (slice_ts sl)" and ?vs = "slice_range sl (slice_value sl)"
  let ?body = "block_bytes pk ?tss ?vs"
  let ?rest = "drop (14 + length ?body) buffer"
  let ?buffer' = "le_bytes 2 version @ le_bytes 4 (of_nat (slice_size sl - slice_offset sl) :: u32)
                  @ le_bytes 8 (slice_id sl) @ ?body @ ?rest"
  let ?dest' = "dest\<lparr>slice_id := slice_id sl,
                       slice_ts := overwrite (slice_offset dest) ?tss (slice_ts dest),
                       slice_value := overwrite (slice_offset dest) ?vs (slice_value dest),
                       slice_offset := slice_offset dest + slice_size dest\<rparr>"
  have ok: "slice_offset sl \<le> slice_size sl" "slice_size sl \<le> length (slice_ts sl)"
      "slice_size sl \<le> length (slice_value sl)"
    using assms(1) by (simp_all add: slice_ok_def)
  have okd: "slice_offset dest \<le> slice_size dest" "slice_size dest \<le> length (slice_ts dest)"
      "slice_size dest \<le> length (slice_value dest)"
    using assms(2) by (simp_all add: slice_ok_def)
  have len: "length ?tss = slice_size dest - slice_offset dest"
      "length ?vs = slice_size dest - slice_offset dest"
    using ok assms(3) by (simp_all add: length_slice_range)
  have enc: "encode_block version pk sl buffer
      = Inr (AKU_SUCCESS, sl\<lparr>slice_offset := slice_size sl\<rparr>, ?buffer')"
    using assms(1,4,5) by (rule encode_block_bytes)
  have "slice_size dest - slice_offset dest < 2 ^ 32"
    using assms(4) unfolding assms(3) .
  from decode_block_bytes [OF assms(2) len this, of version pk "slice_id sl" ?rest]
  have dec: "decode_block version pk ?buffer' dest = Inr (AKU_SUCCESS, ?dest')"
    unfolding assms(3) .
  have ts: "slice_range dest (slice_ts ?dest') = ?tss"
    using slice_range_overwrite [OF okd(1) len(1) okd(2)] by simp
  have vs: "slice_range dest (slice_value ?dest') = ?vs"
    using slice_range_overwrite [OF okd(1) len(2) okd(3)] by simp
  have "slice_id ?dest' = slice_id sl" by simp
  with enc dec ts vs show ?thesis by blast
qed

theorem encode_decode_block_witness:
  "slice_ok ramp_slice \<and> slice_ok (blank_slice 17)
   \<and> slice_size (blank_slice 17) - slice_offset (blank_slice 17)
       = slice_size ramp_slice - slice_offset ramp_slice
   \<and> slice_size ramp_slice - slice_offset ramp_slice < 2 ^ 32
   \<and> 14 + length (block_bytes UseDfcm (slice_range ramp_slice (slice_ts ramp_slice))
                    (slice_range ramp_slice (slice_value ramp_slice)))
       \<le> length (replicate 128 (0 :: u8))
   \<and> (\<exists>buffer' dest'.
         encode_block 1 UseDfcm ramp_slice (replicate 128 0)
           = Inr (AKU_SUCCESS, ramp_slice\<lparr>slice_offset := slice_size ramp_slice\<rparr>, buffer')
       \<and> decode_block 1 UseDfcm buffer' (blank_slice 17) = Inr (AKU_SUCCESS, dest')
       \<and> slice_id dest' = slice_id ramp_slice
       \<and> slice_range (blank_slice 17) (slice_ts dest') = slice_range ramp_slice (slice_ts ramp_slice)
       \<and> slice_range (blank_slice 17) (slice_value dest')
           = slice_range ramp_slice (slice_value ramp_slice))"
proof -
  have sl: "slice_ok ramp_slice"
    by (simp add: slice_ok_def ramp_slice_def)
  have dest: "slice_ok (blank_slice 17)"
    by (simp add: slice_ok_def blank_slice_def)
  have same: "slice_size (blank_slice 17) - slice_offset (blank_slice 17)
       = slice_size ramp_slice - slice_offset ramp_slice"
    by (simp add: ramp_slice_def blank_slice_def)
  have small: "slice_size ramp_slice - slice_offset ramp_slice < 2 ^ 32"
    by (simp add: ramp_slice_def)
  have room: "14 + length (block_bytes UseDfcm (slice_range ramp_slice (slice_ts ramp_slice))
                    (slice_range ramp_slice (slice_value ramp_slice)))
       \<le> length (replicate 128 (0 :: u8))"
    by code_simp
  from encode_decode_block [OF sl dest same small room, of 1] sl dest same small room
  show ?thesis
    by blast
qed

end
